theory Spec2Isabelle
  imports Complex_Main "HOL-Library.Char_ord" "HOL-Library.List_Lexorder" "HOL-Library.Monad_Syntax"
begin

section \<open>Collections, numbers and nodes\<close>

text \<open>
  A JavaScript \<^verbatim>\<open>Set\<close> and the key sequence of a \<^verbatim>\<open>Map\<close> iterate in insertion order,
  so both are lists here: a set is a list without repetition that grows at its end, a
  map is an association list. Arrays are lists. Equality of elements is HOL equality
  (the \<^verbatim>\<open>SameValueZero\<close> of \<^verbatim>\<open>includes\<close>, \<^verbatim>\<open>Set\<close> and \<^verbatim>\<open>Map\<close>).
\<close>

definition set_add :: "'a list \<Rightarrow> 'a \<Rightarrow> 'a list" where
  "set_add s x = (if x \<in> set s then s else s @ [x])"

fun map_get :: "('k \<times> 'v) list \<Rightarrow> 'k \<Rightarrow> 'v option" where
  "map_get [] k = None"
| "map_get ((k', v) # m) k = (if k' = k then Some v else map_get m k)"

fun map_set :: "('k \<times> 'v) list \<Rightarrow> 'k \<Rightarrow> 'v \<Rightarrow> ('k \<times> 'v) list" where
  "map_set [] k v = [(k, v)]"
| "map_set ((k', v') # m) k v = (if k' = k then (k, v) # m else (k', v') # map_set m k v)"

definition map_delete :: "('k \<times> 'v) list \<Rightarrow> 'k \<Rightarrow> ('k \<times> 'v) list" where
  "map_delete m k = filter (\<lambda>kv. fst kv \<noteq> k) m"

definition map_has :: "('k \<times> 'v) list \<Rightarrow> 'k \<Rightarrow> bool" where
  "map_has m k = (k \<in> set (map fst m))"

text \<open>The position of a key in the iteration order of a map (its length when absent).\<close>

fun map_index :: "('k \<times> 'v) list \<Rightarrow> 'k \<Rightarrow> nat" where
  "map_index [] k = 0"
| "map_index ((k', v) # m) k = (if k' = k then 0 else Suc (map_index m k))"

text \<open>
  A depth is a JavaScript number. The only non-integer value a depth can take is
  \<^verbatim>\<open>-Infinity\<close>, the value of \<^verbatim>\<open>Math.max()\<close> on no arguments.
\<close>

datatype jsnum = NegInfinity | Num int

fun js_max2 :: "jsnum \<Rightarrow> jsnum \<Rightarrow> jsnum" where
  "js_max2 NegInfinity y = y"
| "js_max2 x NegInfinity = x"
| "js_max2 (Num a) (Num b) = Num (max a b)"

definition js_max :: "jsnum list \<Rightarrow> jsnum" where
  "js_max xs = fold js_max2 xs NegInfinity"

fun js_plus1 :: "jsnum \<Rightarrow> jsnum" where
  "js_plus1 NegInfinity = NegInfinity"
| "js_plus1 (Num a) = Num (a + 1)"

text \<open>
  \<^verbatim>\<open>SetNode\<close> and \<^verbatim>\<open>ArrayNode\<close> have one shape. A splitter returns a flat array of node
  objects whose \<^verbatim>\<open>imports\<close> hold references to other objects of the same array; here a
  reference is the position of the node in the returned array.
\<close>

record 'a node =
  collection :: "'a list"
  rest :: "'a list"
  importsOf :: "nat list"
  depth :: jsnum

section \<open>splitIntersectionsShallow\<close>

definition multipleSetElements :: "'a list list \<Rightarrow> 'a list" where
  "multipleSetElements sets =
     snd (fold (\<lambda>s acc. fold (\<lambda>element (setElements, multiple).
            ((set_add setElements element),
             (if element \<in> set setElements then set_add multiple element else multiple))) s acc)
          sets ([], []))"

definition singletonNode :: "'a \<Rightarrow> 'a node" where
  "singletonNode element =
     \<lparr>collection = [element], rest = [element], importsOf = [], depth = Num 1\<rparr>"

definition multipleElementsMap :: "'a list \<Rightarrow> ('a \<times> 'a node) list" where
  "multipleElementsMap multiple = fold (\<lambda>element m. map_set m element (singletonNode element)) multiple []"

definition shallowRootNode :: "nat \<Rightarrow> 'a list \<Rightarrow> ('a \<times> 'a node) list \<Rightarrow> 'a list \<Rightarrow> 'a node" where
  "shallowRootNode n multiple m s =
     (let (r, i) = fold (\<lambda>element (r, i).
                     if element \<in> set multiple then (r, i @ [n + map_index m element])
                     else (r @ [element], i)) s ([], [])
      in \<lparr>collection = s, rest = r, importsOf = i, depth = Num 0\<rparr>)"

definition splitIntersectionsSetsShallow :: "'a list list \<Rightarrow> 'a node list" where
  "splitIntersectionsSetsShallow sets =
     (let multiple = multipleSetElements sets;
          m = multipleElementsMap multiple
      in map (shallowRootNode (length sets) multiple m) sets @ map snd m)"

definition multipleArrayElements :: "'a list list \<Rightarrow> 'a list" where
  "multipleArrayElements arrays =
     snd (fold (\<lambda>array acc. fold (\<lambda>element (arrElements, multiple).
            if element \<in> set arrElements then (arrElements, multiple @ [element])
            else (arrElements @ [element], multiple)) array acc)
          arrays ([], []))"

definition splitIntersectionsArrayShallow :: "'a list list \<Rightarrow> 'a node list" where
  "splitIntersectionsArrayShallow arrays =
     (let multiple = multipleArrayElements arrays;
          m = multipleElementsMap multiple
      in map (shallowRootNode (length arrays) multiple m) arrays @ map snd m)"

text \<open>
  The entry point dispatches on the shape of its argument: an array of arrays or a set
  of sets.
\<close>

datatype 'a collections = Arrays "'a list list" | Sets "'a list list"

fun splitIntersectionsShallow :: "'a collections \<Rightarrow> 'a node list" where
  "splitIntersectionsShallow (Arrays arrays) = splitIntersectionsArrayShallow arrays"
| "splitIntersectionsShallow (Sets sets) = splitIntersectionsSetsShallow sets"

fun collectionsOf :: "'a collections \<Rightarrow> 'a list list" where
  "collectionsOf (Arrays arrays) = arrays"
| "collectionsOf (Sets sets) = sets"

text \<open>
  The bodies of the two counting loops, named for the proofs: one step of the pass over
  all elements of all arrays, and of the pass over all elements of all sets.
\<close>

definition arrStep :: "'a \<Rightarrow> 'a list \<times> 'a list \<Rightarrow> 'a list \<times> 'a list" where
  "arrStep = (\<lambda>element (arrElements, multiple).
            if element \<in> set arrElements then (arrElements, multiple @ [element])
            else (arrElements @ [element], multiple))"

definition setStep :: "'a \<Rightarrow> 'a list \<times> 'a list \<Rightarrow> 'a list \<times> 'a list" where
  "setStep = (\<lambda>element (setElements, multiple).
            ((set_add setElements element),
             (if element \<in> set setElements then set_add multiple element else multiple)))"

section \<open>BiggestIntersectionsSplitter\<close>

subsection \<open>The three intersection functions\<close>

definition getIntersection :: "'a list \<Rightarrow> 'a list \<Rightarrow> 'a list" where
  "getIntersection array1 array2 =
     (let (a1, a2) = (if length array1 < length array2 then (array1, array2) else (array2, array1))
      in filter (\<lambda>element. element \<in> set a2) a1)"

text \<open>
  The two merge loops advance the indices \<^verbatim>\<open>i\<close> and \<^verbatim>\<open>j\<close> over the two arrays; the
  recursion below runs over the suffixes that start at \<^verbatim>\<open>i\<close> and \<^verbatim>\<open>j\<close>.
\<close>

fun getIntersectionFromOrderedArrays :: "'a::linorder list \<Rightarrow> 'a list \<Rightarrow> 'a list" where
  "getIntersectionFromOrderedArrays (value1 # array1) (value2 # array2) =
     (if value1 < value2 then getIntersectionFromOrderedArrays array1 (value2 # array2)
      else if value2 < value1 then getIntersectionFromOrderedArrays (value1 # array1) array2
      else value1 # getIntersectionFromOrderedArrays array1 array2)"
| "getIntersectionFromOrderedArrays [] array2 = []"
| "getIntersectionFromOrderedArrays array1 [] = []"

fun getIntersectionFromArraysWithOrderingFunction ::
  "('a \<Rightarrow> 'a \<Rightarrow> int) \<Rightarrow> 'a list \<Rightarrow> 'a list \<Rightarrow> 'a list" where
  "getIntersectionFromArraysWithOrderingFunction sorter (value1 # array1) (value2 # array2) =
     (let sorting = sorter value1 value2
      in if sorting < 0 then getIntersectionFromArraysWithOrderingFunction sorter array1 (value2 # array2)
         else if sorting > 0 then getIntersectionFromArraysWithOrderingFunction sorter (value1 # array1) array2
         else value1 # getIntersectionFromArraysWithOrderingFunction sorter array1 array2)"
| "getIntersectionFromArraysWithOrderingFunction sorter [] array2 = []"
| "getIntersectionFromArraysWithOrderingFunction sorter array1 [] = []"

text \<open>
  The constructor argument \<^verbatim>\<open>sort\<close>: \<^verbatim>\<open>true\<close>, \<^verbatim>\<open>false\<close> or a sorter function.

  For \<^verbatim>\<open>true\<close> the rest is \<^verbatim>\<open>[...array].sort()\<close>. Without a compare function,
  \<^verbatim>\<open>Array.prototype.sort\<close> converts the elements to strings and orders them by these
  strings, compared by their code units; it is stable. The conversion belongs to the
  elements, so \<open>SortTrue\<close> carries it: the identity for strings, \<open>numberToString\<close> for
  integer numbers. The merge of \<^verbatim>\<open>getIntersectionFromOrderedArrays\<close> compares the elements
  themselves with \<^verbatim>\<open><\<close>, which is the order of the strings for strings only.

  For a sorter function the rest is \<^verbatim>\<open>[...array].sort(sorter)\<close>. When the sorter is a
  consistent comparator for the elements of the array, the result is fixed: the stable
  sort by the sorter, which insertion sort computes. For a sorter that is not
  consistent the order is left to the implementation, and \<open>sort_with\<close> is one such order.
\<close>

datatype 'a sort_arg = SortTrue "'a \<Rightarrow> string" | SortFalse | Sorter "'a \<Rightarrow> 'a \<Rightarrow> int"



fun insert_with :: "('a \<Rightarrow> 'a \<Rightarrow> int) \<Rightarrow> 'a \<Rightarrow> 'a list \<Rightarrow> 'a list" where
  "insert_with sorter x [] = [x]"
| "insert_with sorter x (y # ys) =
     (if sorter x y \<le> 0 then x # y # ys else y # insert_with sorter x ys)"

definition sort_with :: "('a \<Rightarrow> 'a \<Rightarrow> int) \<Rightarrow> 'a list \<Rightarrow> 'a list" where
  "sort_with sorter xs = foldr (insert_with sorter) xs []"

fun intersectionFunction :: "'a::linorder sort_arg \<Rightarrow> 'a list \<Rightarrow> 'a list \<Rightarrow> 'a list" where
  "intersectionFunction (SortTrue toString) = getIntersectionFromOrderedArrays"
| "intersectionFunction SortFalse = getIntersection"
| "intersectionFunction (Sorter sorter) = getIntersectionFromArraysWithOrderingFunction sorter"

fun sortedCopy :: "'a::linorder sort_arg \<Rightarrow> 'a list \<Rightarrow> 'a list" where
  "sortedCopy (SortTrue toString) array = sort_key toString array"
| "sortedCopy SortFalse array = array"
| "sortedCopy (Sorter sorter) array = sort_with sorter array"

subsection \<open>One extraction pass\<close>

definition elementCount :: "'a node list \<Rightarrow> ('a \<times> nat) list" where
  "elementCount arrayNodes =
     fold (\<lambda>n m. fold (\<lambda>element m.
             (case map_get m element of
                None \<Rightarrow> map_set m element 1
              | Some c \<Rightarrow> map_set m element (c + 1))) (rest n) m)
          arrayNodes []"

definition elementCountMap :: "('a \<times> nat) list \<Rightarrow> (nat \<times> 'a list) list" where
  "elementCountMap ec =
     fold (\<lambda>(element, count) m.
             (case map_get m count of
                None \<Rightarrow> map_set m count [element]
              | Some elements \<Rightarrow> map_set m count (elements @ [element])))
          ec []"

definition getLongestIntersection ::
  "('a list \<Rightarrow> 'a list \<Rightarrow> 'a list) \<Rightarrow> 'a list list \<Rightarrow> 'a list list \<Rightarrow> nat \<Rightarrow> 'a list" where
  "getLongestIntersection isect baseArrays nextArrays longest =
     (let allArrays = nextArrays @ baseArrays
      in snd (fold (\<lambda>(i, s) acc. fold (\<lambda>all (longest, longestIntersection).
                  (let intersection = isect s all
                   in if longest < length intersection then (length intersection, intersection)
                      else (longest, longestIntersection)))
                (drop (i + 1) allArrays) acc)
              (enumerate 0 nextArrays) (longest, [])))"

definition extractIntersection :: "'a node list \<Rightarrow> 'a list \<Rightarrow> 'a node list" where
  "extractIntersection arrayNodes longestIntersection =
     map (\<lambda>aNode.
            if list_all (\<lambda>includedElement. includedElement \<in> set (rest aNode)) longestIntersection
            then aNode\<lparr>rest := filter (\<lambda>el. el \<notin> set longestIntersection) (rest aNode),
                       importsOf := importsOf aNode @ [length arrayNodes]\<rparr>
            else aNode) arrayNodes
     @ [\<lparr>collection = longestIntersection, rest = longestIntersection, importsOf = [], depth = Num 1\<rparr>]"

text \<open>
  The two nested \<^verbatim>\<open>for\<close> loops of \<^verbatim>\<open>splitArrayNodes\<close> visit the elements of the count
  buckets in one sequence; the function below is the loop body, run over that sequence.
  It returns what \<^verbatim>\<open>splitArrayNodes\<close> returns together with the node array as mutated.
\<close>

fun splitLoopElements ::
  "('a list \<Rightarrow> 'a list \<Rightarrow> 'a list) \<Rightarrow> 'a node list \<Rightarrow> 'a list \<Rightarrow> 'a node list \<Rightarrow> 'a node list
     \<Rightarrow> nat \<Rightarrow> 'a list \<Rightarrow> nat \<times> 'a node list" where
  "splitLoopElements isect arrayNodes [] filteredArrays baseArrays longest longestIntersection =
     (0, arrayNodes)"
| "splitLoopElements isect arrayNodes (element # elements) filteredArrays baseArrays longest longestIntersection =
     (let candidates = filter (\<lambda>f. length (rest f) > longest) filteredArrays;
          nextIntersectedArrays = filter (\<lambda>f. element \<in> set (rest f)) candidates;
          nextFilteredArrays = filter (\<lambda>f. element \<notin> set (rest f)) candidates;
          intersection = getLongestIntersection isect (map rest baseArrays)
                           (map rest nextIntersectedArrays) longest;
          (longest', longestIntersection') =
             (if longest < length intersection then (length intersection, intersection)
              else (longest, longestIntersection))
      in if length nextFilteredArrays = 0
         then (if length longestIntersection' > 0
               then (longest', extractIntersection arrayNodes longestIntersection')
               else (longest', arrayNodes))
         else splitLoopElements isect arrayNodes elements nextFilteredArrays
                (baseArrays @ nextIntersectedArrays) longest' longestIntersection')"

definition splitArrayNodes ::
  "('a list \<Rightarrow> 'a list \<Rightarrow> 'a list) \<Rightarrow> 'a node list \<Rightarrow> nat \<times> 'a node list" where
  "splitArrayNodes isect arrayNodes =
     (let ecm = elementCountMap (elementCount arrayNodes);
          counts = rev (sort (map fst ecm))
      in if (case counts of [] \<Rightarrow> False | c # _ \<Rightarrow> c = 1) then (0, arrayNodes)
         else
           (let singleElements = (case map_get ecm 1 of Some elements \<Rightarrow> elements | None \<Rightarrow> []);
                filteredArrays = map (\<lambda>n. \<lparr>collection = collection n,
                                           rest = filter (\<lambda>element. element \<notin> set singleElements) (rest n),
                                           importsOf = importsOf n, depth = Num 0\<rparr>) arrayNodes
            in splitLoopElements isect arrayNodes
                 (concat (map (\<lambda>count. case map_get ecm count of Some elements \<Rightarrow> elements | None \<Rightarrow> [])
                            (butlast counts)))
                 filteredArrays [] 0 []))"

subsection \<open>The loop, the depth pass and the entry points\<close>

text \<open>
  \<^verbatim>\<open>while (this.splitArrayNodes(arrayNodes) > 0) {}\<close>: the value \<open>None\<close> stands for a
  loop that never ends.
\<close>

partial_function (option) splitWhile ::
  "('a list \<Rightarrow> 'a list \<Rightarrow> 'a list) \<Rightarrow> 'a node list \<Rightarrow> 'a node list option" where
  "splitWhile isect arrayNodes =
     (case splitArrayNodes isect arrayNodes of
        (longest, arrayNodes') \<Rightarrow>
          if longest > 0 then splitWhile isect arrayNodes' else Some arrayNodes')"

declare splitWhile.simps [code]

text \<open>
  \<^verbatim>\<open>addMaxDepthToNodes\<close> finds the importers of a node by the identity of its array. Every
  node it assigns a depth to was generated by an extraction pass and owns an array of
  its own, so that identity is the position of the node.
\<close>

definition addMaxDepthToNodes :: "'a node list \<Rightarrow> 'a node list" where
  "addMaxDepthToNodes arrayNodes =
     (let positions = [0..<length arrayNodes];
          importedNodes = filter (\<lambda>i. depth (arrayNodes ! i) = Num 0) positions;
          unImportedNodes = filter (\<lambda>i. depth (arrayNodes ! i) \<noteq> Num 0) positions
      in fst (fold (\<lambda>j (nodes, imported).
                (nodes[j := (nodes ! j)\<lparr>depth :=
                     js_plus1 (js_max (map (\<lambda>i. depth (nodes ! i))
                                 (filter (\<lambda>i. j \<in> set (importsOf (nodes ! i))) imported)))\<rparr>],
                 imported @ [j]))
              unImportedNodes (arrayNodes, importedNodes)))"

definition splitArrays :: "'a::linorder sort_arg \<Rightarrow> 'a list list \<Rightarrow> 'a node list option" where
  "splitArrays srt arrays =
     map_option addMaxDepthToNodes
       (splitWhile (intersectionFunction srt)
          (map (\<lambda>array. \<lparr>collection = array, rest = sortedCopy srt array,
                          importsOf = [], depth = Num 0\<rparr>) arrays))"

text \<open>\<^verbatim>\<open>new Set(array)\<close>: the elements of the array in the order of their first occurrence.\<close>

definition js_new_set :: "'a list \<Rightarrow> 'a list" where
  "js_new_set xs = fold (\<lambda>x s. set_add s x) xs []"

text \<open>
  \<^verbatim>\<open>convertSetsToArraysAndUseSplitFunction\<close>: every set is spread into an array, the
  arrays are split, and every array node is turned into a set node; a root node gets the
  caller's set back, a generated node a new set of its array.
\<close>

definition mapArraysToSetNodes :: "'a list list \<Rightarrow> 'a node list \<Rightarrow> 'a node list" where
  "mapArraysToSetNodes sets arrayNodes =
     map (\<lambda>(i, n). \<lparr>collection = (if i < length sets then sets ! i else js_new_set (collection n)),
                     rest = js_new_set (rest n), importsOf = importsOf n, depth = depth n\<rparr>)
       (enumerate 0 arrayNodes)"

definition splitSets :: "'a::linorder sort_arg \<Rightarrow> 'a list list \<Rightarrow> 'a node list option" where
  "splitSets srt sets = map_option (mapArraysToSetNodes sets) (splitArrays srt sets)"

section \<open>GetNodeMetrics\<close>

text \<open>
  The metrics follow the \<^verbatim>\<open>imports\<close> references of a node object and never compare two
  objects, so the object they are given is read as the tree of what is reachable from it.
\<close>

datatype 'a node_obj =
  NodeObj (obj_collection: "'a list") (obj_rest: "'a list") (obj_imports: "'a node_obj list")
    (obj_depth: jsnum)


record metrics =
  m_maxDepth :: nat
  m_leaves :: nat
  m_imports :: nat
  m_nodes :: nat
  m_avgDepthSum :: nat

fun getNodeMetricRecursive :: "'a node_obj \<Rightarrow> metrics \<Rightarrow> nat \<Rightarrow> 'a list \<times> metrics"
  and flatMapImports :: "'a node_obj list \<Rightarrow> metrics \<Rightarrow> nat \<Rightarrow> 'a list \<times> metrics" where
  "getNodeMetricRecursive (NodeObj c r imps d) metrics level =
     (let m1 = metrics\<lparr>m_nodes := m_nodes metrics + 1\<rparr>;
          m2 = (if m_maxDepth m1 < level then m1\<lparr>m_maxDepth := level\<rparr> else m1);
          m3 = (if level > 0 \<and> length imps = 0
                then m2\<lparr>m_leaves := m_leaves m2 + 1, m_avgDepthSum := m_avgDepthSum m2 + level\<rparr>
                else m2)
      in if length imps > 0
         then (let m4 = m3\<lparr>m_imports := m_imports m3 + length imps\<rparr>;
                   (elements, m5) = flatMapImports imps m4 (level + 1)
               in (r @ elements, m5))
         else (r, m3))"
| "flatMapImports [] metrics level = ([], metrics)"
| "flatMapImports (nObj # nObjs) metrics level =
     (let (elements1, m1) = getNodeMetricRecursive nObj metrics level;
          (elements2, m2) = flatMapImports nObjs m1 level
      in (elements1 @ elements2, m2))"

datatype error = NodeObjectNotValid | TypeError

text \<open>
  \<^verbatim>\<open>avgDepth\<close> is the quotient \<^verbatim>\<open>avgDepthSum / leaves\<close>; it is \<^verbatim>\<open>NaN\<close> (here \<open>None\<close>)
  when there is no leaf, and the exact quotient stands for the rounded one.
\<close>

record node_metric =
  nm_maxDepth :: nat
  nm_leaves :: nat
  nm_imports :: nat
  nm_nodes :: nat
  nm_avgDepth :: "rat option"

definition initialMetrics :: metrics where
  "initialMetrics = \<lparr>m_maxDepth = 0, m_leaves = 0, m_imports = 0, m_nodes = 0, m_avgDepthSum = 0\<rparr>"

definition getNodeMetric :: "'a node_obj \<Rightarrow> error + node_metric" where
  "getNodeMetric nodeObj =
     (let (allElements, metrics) = getNodeMetricRecursive nodeObj initialMetrics 0;
          nodeElements = obj_collection nodeObj
      in if list_ex (\<lambda>element. element \<notin> set allElements) nodeElements
         then Inl NodeObjectNotValid
         else Inr \<lparr>nm_maxDepth = m_maxDepth metrics, nm_leaves = m_leaves metrics,
                   nm_imports = m_imports metrics, nm_nodes = m_nodes metrics,
                   nm_avgDepth = (if m_leaves metrics = 0 then None
                                  else Some (of_nat (m_avgDepthSum metrics) / of_nat (m_leaves metrics)))\<rparr>)"

text \<open>
  The elements reachable from a node object through \<^verbatim>\<open>rest\<close> and \<^verbatim>\<open>imports\<close>: every
  import replaced by its own rest and its own imports, replaced in turn.
\<close>

fun reachableElements :: "'a node_obj \<Rightarrow> 'a list" where
  "reachableElements (NodeObj c r imps d) = r @ concat (map reachableElements imps)"

text \<open>What \<^verbatim>\<open>getNodeMetric\<close> returns when it does not throw.\<close>

definition metricOf :: "'a node_obj \<Rightarrow> node_metric" where
  "metricOf nodeObj =
     (let metrics = snd (getNodeMetricRecursive nodeObj initialMetrics 0)
      in \<lparr>nm_maxDepth = m_maxDepth metrics, nm_leaves = m_leaves metrics,
          nm_imports = m_imports metrics, nm_nodes = m_nodes metrics,
          nm_avgDepth = (if m_leaves metrics = 0 then None
                         else Some (of_nat (m_avgDepthSum metrics) / of_nat (m_leaves metrics)))\<rparr>)"

section \<open>WeightedIntersectionsSplitter\<close>

text \<open>
  The constructor arguments: the \<^verbatim>\<open>join\<close>/\<^verbatim>\<open>split\<close> pair between arrays of elements and
  primitive keys, and the two weight functions, each a function of
  \<^verbatim>\<open>intersectingElementsCount\<close> and \<^verbatim>\<open>intersectingSetsCount\<close>.
\<close>

record ('a, 'u) weighted =
  join :: "'a list \<Rightarrow> 'u"
  split :: "'u \<Rightarrow> 'a list"
  primaryWeight :: "int \<Rightarrow> int \<Rightarrow> int"
  secondaryWeight :: "int \<Rightarrow> int \<Rightarrow> int"

definition elementsCount :: "int \<Rightarrow> int \<Rightarrow> int" where
  "elementsCount intersectingElementsCount intersectingSetsCount = intersectingElementsCount"

definition setsCount :: "int \<Rightarrow> int \<Rightarrow> int" where
  "setsCount intersectingElementsCount intersectingSetsCount = intersectingSetsCount"

definition productSetsElementsCount :: "int \<Rightarrow> int \<Rightarrow> int" where
  "productSetsElementsCount intersectingElementsCount intersectingSetsCount =
     intersectingElementsCount * intersectingSetsCount"

definition elementsCountReverse :: "int \<Rightarrow> int \<Rightarrow> int" where
  "elementsCountReverse intersectingElementsCount intersectingSetsCount = - intersectingElementsCount"

definition setsCountReverse :: "int \<Rightarrow> int \<Rightarrow> int" where
  "setsCountReverse intersectingElementsCount intersectingSetsCount = - intersectingSetsCount"

definition productSetsElementsCountReverse :: "int \<Rightarrow> int \<Rightarrow> int" where
  "productSetsElementsCountReverse intersectingElementsCount intersectingSetsCount =
     - intersectingElementsCount * intersectingSetsCount"

text \<open>The constructor with its default weight functions.\<close>

definition WeightedIntersectionsSplitter :: "('a list \<Rightarrow> 'u) \<Rightarrow> ('u \<Rightarrow> 'a list) \<Rightarrow> ('a, 'u) weighted" where
  "WeightedIntersectionsSplitter j s =
     \<lparr>join = j, split = s, primaryWeight = elementsCount, secondaryWeight = setsCount\<rparr>"

text \<open>
  The working sets of a run are the \<^verbatim>\<open>rest\<close> sets of its nodes: \<^verbatim>\<open>setNodeMap\<close> maps every
  working set to its node, in the order of creation, and \<^verbatim>\<open>clonedSets\<close> holds the same
  sets in the same order. A working set is named here by the position of its node; its
  elements are the \<^verbatim>\<open>rest\<close> of that node, which \<^verbatim>\<open>filterFromSet\<close> shrinks in place. The
  four maps of the run are association lists in insertion order. The value \<open>None\<close>
  stands for the \<^verbatim>\<open>TypeError\<close> of a property read on \<^verbatim>\<open>undefined\<close>.
\<close>

record ('a, 'u) wstate =
  setNodes :: "'a node list"
  intersectionMap :: "('u \<times> (nat \<times> nat) list) list"
  intersectionMapSet :: "('u \<times> (nat \<times> nat) list) list"
  setToIntersectionMap :: "(nat \<times> 'u list) list"
  weightIntersectionMap :: "(int \<times> 'u list) list"

definition cloneSet :: "'a list \<Rightarrow> 'a list" where
  "cloneSet s = fold (\<lambda>entry newSet. set_add newSet entry) s []"

definition intersectSets :: "'a list \<Rightarrow> 'a list \<Rightarrow> 'a list" where
  "intersectSets set1 set2 =
     (let (s1, s2) = (if length set1 \<le> length set2 then (set1, set2) else (set2, set1))
      in fold (\<lambda>element intersectedSet.
                 if element \<in> set s2 then set_add intersectedSet element else intersectedSet) s1 [])"

definition createSetObjMap :: "'a list list \<Rightarrow> 'a node list" where
  "createSetObjMap sets =
     map (\<lambda>s. \<lparr>collection = s, rest = cloneSet s, importsOf = [], depth = Num 0\<rparr>) sets"

definition pushPair :: "('u \<times> (nat \<times> nat) list) list \<Rightarrow> 'u \<Rightarrow> nat \<times> nat \<Rightarrow> ('u \<times> (nat \<times> nat) list) list" where
  "pushPair im intersectionId pair =
     (case map_get im intersectionId of
        Some entry \<Rightarrow> map_set im intersectionId (entry @ [pair])
      | None \<Rightarrow> map_set im intersectionId [pair])"

definition createIntersectionMap ::
  "('a, 'u) weighted \<Rightarrow> 'a node list \<Rightarrow> ('u \<times> (nat \<times> nat) list) list" where
  "createIntersectionMap w nodes =
     fold (\<lambda>i im. fold (\<lambda>j im.
             (let intersectedSet = intersectSets (rest (nodes ! i)) (rest (nodes ! j))
              in if length intersectedSet > 0 then pushPair im (join w intersectedSet) (i, j) else im))
           [i + 1 ..< length nodes] im)
       [0 ..< length nodes] []"

definition addToIntersectingMapSets :: "(nat \<times> nat) list \<Rightarrow> nat \<Rightarrow> (nat \<times> nat) list" where
  "addToIntersectingMapSets intersectingMapSets s =
     (case map_get intersectingMapSets s of
        Some intersectingSetCount \<Rightarrow>
          (if intersectingSetCount \<noteq> 0 then map_set intersectingMapSets s (intersectingSetCount + 1)
           else map_set intersectingMapSets s 1)
      | None \<Rightarrow> map_set intersectingMapSets s 1)"

definition createIntersectionMapSet ::
  "('u \<times> (nat \<times> nat) list) list \<Rightarrow> ('u \<times> (nat \<times> nat) list) list" where
  "createIntersectionMapSet im =
     fold (\<lambda>(key, sets) ims.
             map_set ims key
               (fold (\<lambda>(set1, set2) setsMap.
                        addToIntersectingMapSets (addToIntersectingMapSets setsMap set1) set2) sets []))
       im []"

definition addToSetOrCreateKeyInMap :: "('k \<times> 'e list) list \<Rightarrow> 'k \<Rightarrow> 'e \<Rightarrow> ('k \<times> 'e list) list" where
  "addToSetOrCreateKeyInMap m key element =
     (case map_get m key of
        Some elements \<Rightarrow> map_set m key (set_add elements element)
      | None \<Rightarrow> map_set m key [element])"

definition createSetToIntersectionMap ::
  "('u \<times> (nat \<times> nat) list) list \<Rightarrow> (nat \<times> 'u list) list" where
  "createSetToIntersectionMap ims =
     fold (\<lambda>(intersection, setMap) m.
             fold (\<lambda>(s, count) m. addToSetOrCreateKeyInMap m s intersection) setMap m)
       ims []"

definition getWeightIntersectionsMap ::
  "('a, 'u) weighted \<Rightarrow> ('u \<times> (nat \<times> nat) list) list \<Rightarrow> (int \<times> 'u list) list" where
  "getWeightIntersectionsMap w ims =
     fold (\<lambda>(intersection, mapSet) m.
             addToSetOrCreateKeyInMap m
               (primaryWeight w (int (length (split w intersection))) (int (length mapSet)))
               intersection)
       ims []"

definition removeFromSetOrDeleteFromMap ::
  "('k \<times> 'e list) list \<Rightarrow> 'k \<Rightarrow> 'e \<Rightarrow> ('k \<times> 'e list) list option" where
  "removeFromSetOrDeleteFromMap m key element =
     (case map_get m key of
        None \<Rightarrow> None
      | Some elements \<Rightarrow>
          Some (if length elements > 1 then map_set m key (filter (\<lambda>e. e \<noteq> element) elements)
                else map_delete m key))"

text \<open>A \<^verbatim>\<open>forEach\<close> whose body may throw: the first throw ends it.\<close>

fun forEachM :: "('x \<Rightarrow> 's \<Rightarrow> 's option) \<Rightarrow> 'x list \<Rightarrow> 's \<Rightarrow> 's option" where
  "forEachM f [] s = Some s"
| "forEachM f (x # xs) s = (case f x s of None \<Rightarrow> None | Some s' \<Rightarrow> forEachM f xs s')"

text \<open>
  \<^verbatim>\<open>Math.max\<close> of the keys of the weight map is \<^verbatim>\<open>-Infinity\<close> when the map is empty; no
  bucket has that key, and reading the bucket's keys throws. The secondary maximum
  starts at \<^verbatim>\<open>-Infinity\<close> (here \<open>None\<close>), below every weight.
\<close>

definition getHighestWeightIntersection ::
  "('a, 'u) weighted \<Rightarrow> (int \<times> 'u list) list \<Rightarrow> ('u \<times> (nat \<times> nat) list) list \<Rightarrow> ('u \<times> int) option" where
  "getHighestWeightIntersection w wim ims =
     (case map fst wim of
        [] \<Rightarrow> None
      | k # ks \<Rightarrow>
          (let highestWeight = fold max ks k in
           case map_get wim highestWeight of
             None \<Rightarrow> None
           | Some [] \<Rightarrow> None
           | Some (first # others) \<Rightarrow>
               (if length (first # others) > 1
                then do {
                  (maxSecondaryWeight, highestWeightIntersection) \<leftarrow>
                    forEachM (\<lambda>intersection (maxSecondaryWeight, highestWeightIntersection). do {
                        mapSet \<leftarrow> map_get ims intersection;
                        let secondary = secondaryWeight w (int (length (split w intersection)))
                                          (int (length mapSet));
                        Some (if (case maxSecondaryWeight of None \<Rightarrow> True | Some mx \<Rightarrow> secondary > mx)
                              then (Some secondary, intersection)
                              else (maxSecondaryWeight, highestWeightIntersection))
                      }) (first # others) (None, first);
                  Some (highestWeightIntersection, highestWeight)
                }
                else Some (first, highestWeight))))"

text \<open>
  The body of the loop over the intersections of one intersecting set, in
  \<^verbatim>\<open>getOtherAffectedIntersections\<close>.
\<close>

fun otherAffectedStep ::
  "('a, 'u) weighted \<Rightarrow> nat list \<Rightarrow> 'u \<Rightarrow> ('u \<times> (nat \<times> nat) list) list \<Rightarrow> 'u
     \<Rightarrow> 'u list \<times> nat list \<Rightarrow> ('u list \<times> nat list) option" where
  "otherAffectedStep w intersectingSets highestWeightIntersection ims intersection
       (otherAffectedIntersections, otherAffectedSets) =
     (if list_ex (\<lambda>element. element \<in> set (split w highestWeightIntersection))
          (split w intersection)
      then do {
        mapSet \<leftarrow> map_get ims intersection;
        Some (set_add otherAffectedIntersections intersection,
              fold (\<lambda>affectedSet oas.
                      if affectedSet \<notin> set intersectingSets then set_add oas affectedSet else oas)
                (map fst mapSet) otherAffectedSets)
      }
      else Some (otherAffectedIntersections, otherAffectedSets))"

definition getOtherAffectedIntersections ::
  "('a, 'u) weighted \<Rightarrow> nat list \<Rightarrow> (nat \<times> 'u list) list \<Rightarrow> 'u \<Rightarrow> ('u \<times> (nat \<times> nat) list) list
     \<Rightarrow> ('u list \<times> nat list) option" where
  "getOtherAffectedIntersections w intersectingSets s2i highestWeightIntersection ims = do {
     (otherAffectedIntersections, otherAffectedSets) \<leftarrow>
       forEachM (\<lambda>s acc. do {
           affectedIntersections \<leftarrow> map_get s2i s;
           forEachM (otherAffectedStep w intersectingSets highestWeightIntersection ims)
             affectedIntersections acc
         }) intersectingSets ([], []);
     Some (filter (\<lambda>i. i \<noteq> highestWeightIntersection) otherAffectedIntersections, otherAffectedSets)
   }"

text \<open>
  \<^verbatim>\<open>removeOtherAffectedSetFromMaps\<close> updates \<^verbatim>\<open>intersectionMapSet\<close>, the weight map and
  \<^verbatim>\<open>setToIntersectionMap\<close>; it returns the three in that order. A set that is not a key of
  the set map has the count \<^verbatim>\<open>undefined\<close>, which is not greater than 1.
\<close>

definition removeOtherAffectedSetFromMaps ::
  "('a, 'u) weighted \<Rightarrow> ('u \<times> (nat \<times> nat) list) list \<Rightarrow> 'u \<Rightarrow> nat \<Rightarrow> (int \<times> 'u list) list
     \<Rightarrow> (nat \<times> 'u list) list
     \<Rightarrow> (('u \<times> (nat \<times> nat) list) list \<times> (int \<times> 'u list) list \<times> (nat \<times> 'u list) list) option" where
  "removeOtherAffectedSetFromMaps w ims key s weightMap setToKeyMap = do {
     setMap \<leftarrow> map_get ims key;
     (setMap', weightMap', setToKeyMap') \<leftarrow>
       (case map_get setMap s of
          Some (Suc (Suc c)) \<Rightarrow> Some (map_set setMap s (Suc c), weightMap, setToKeyMap)
        | _ \<Rightarrow> do {
            let intersectingElementsCount = int (length (split w key));
            let intersectingSetsCount = int (length setMap);
            let weight = primaryWeight w intersectingElementsCount intersectingSetsCount;
            weightMap1 \<leftarrow> removeFromSetOrDeleteFromMap weightMap weight key;
            let updatedWeight = primaryWeight w intersectingElementsCount (intersectingSetsCount - 1);
            let weightMap2 = (if intersectingSetsCount > 1
                              then addToSetOrCreateKeyInMap weightMap1 updatedWeight key
                              else weightMap1);
            setToKeyMap1 \<leftarrow> removeFromSetOrDeleteFromMap setToKeyMap s key;
            Some (map_delete setMap s, weightMap2, setToKeyMap1)
          });
     Some (if length setMap' = 0 then map_delete ims key else map_set ims key setMap',
           weightMap', setToKeyMap')
   }"

text \<open>
  The two nested loops of \<^verbatim>\<open>removeUpdatedFromMaps\<close>: the body of the loop over the pairs
  of one other affected intersection, and the body of the loop over the other affected
  intersections.
\<close>

fun removePairStep ::
  "('a, 'u) weighted \<Rightarrow> nat list \<Rightarrow> nat list \<Rightarrow> 'u \<Rightarrow> nat \<times> nat
     \<Rightarrow> ('u \<times> (nat \<times> nat) list) list \<times> (int \<times> 'u list) list \<times> (nat \<times> 'u list) list
          \<times> (nat \<times> nat) list \<times> (nat \<times> nat) list
     \<Rightarrow> (('u \<times> (nat \<times> nat) list) list \<times> (int \<times> 'u list) list \<times> (nat \<times> 'u list) list
          \<times> (nat \<times> nat) list \<times> (nat \<times> nat) list) option" where
  "removePairStep w intersectingSets otherAffectedSets otherAffectedIntersection (set1, set2)
       (ims, wim, s2i, intersectingPairs, unaffected) =
     (if set1 \<in> set intersectingSets \<or> set2 \<in> set intersectingSets
         \<or> (set1 \<in> set otherAffectedSets \<and> set2 \<in> set otherAffectedSets)
      then do {
        (ims1, wim1, s2i1) \<leftarrow>
          removeOtherAffectedSetFromMaps w ims otherAffectedIntersection set1 wim s2i;
        (ims2, wim2, s2i2) \<leftarrow>
          removeOtherAffectedSetFromMaps w ims1 otherAffectedIntersection set2 wim1 s2i1;
        Some (ims2, wim2, s2i2, intersectingPairs @ [(set1, set2)], unaffected)
      }
      else Some (ims, wim, s2i, intersectingPairs, unaffected @ [(set1, set2)]))"

fun removeIntersectionStep ::
  "('a, 'u) weighted \<Rightarrow> nat list \<Rightarrow> nat list \<Rightarrow> 'u
     \<Rightarrow> ('u \<times> (nat \<times> nat) list) list \<times> ('u \<times> (nat \<times> nat) list) list \<times> (int \<times> 'u list) list
          \<times> (nat \<times> 'u list) list \<times> (nat \<times> nat) list
     \<Rightarrow> (('u \<times> (nat \<times> nat) list) list \<times> ('u \<times> (nat \<times> nat) list) list \<times> (int \<times> 'u list) list
          \<times> (nat \<times> 'u list) list \<times> (nat \<times> nat) list) option" where
  "removeIntersectionStep w intersectingSets otherAffectedSets otherAffectedIntersection
       (im, ims, wim, s2i, intersectingPairs) = do {
     possiblyAffectedIntersectingSets \<leftarrow> map_get im otherAffectedIntersection;
     (ims', wim', s2i', intersectingPairs', unaffectedIntersectingSets) \<leftarrow>
       forEachM (removePairStep w intersectingSets otherAffectedSets otherAffectedIntersection)
         possiblyAffectedIntersectingSets (ims, wim, s2i, intersectingPairs, []);
     Some (if length unaffectedIntersectingSets > 0
           then map_set im otherAffectedIntersection unaffectedIntersectingSets
           else map_delete im otherAffectedIntersection,
           ims', wim', s2i', intersectingPairs')
   }"

text \<open>
  \<^verbatim>\<open>removeUpdatedFromMaps\<close> returns the state with its four maps updated and the
  \<^verbatim>\<open>intersectingPairs\<close>.
\<close>

definition removeUpdatedFromMaps ::
  "('a, 'u) weighted \<Rightarrow> 'u \<Rightarrow> nat list \<Rightarrow> 'u list \<Rightarrow> nat list \<Rightarrow> ('a, 'u) wstate \<Rightarrow> int
     \<Rightarrow> (('a, 'u) wstate \<times> (nat \<times> nat) list) option" where
  "removeUpdatedFromMaps w highestWeightIntersection intersectingSets otherAffectedIntersections
       otherAffectedSets st highestWeight = do {
     let im0 = map_delete (intersectionMap st) highestWeightIntersection;
     let ims0 = map_delete (intersectionMapSet st) highestWeightIntersection;
     s2i0 \<leftarrow> forEachM (\<lambda>intersectingSet s2i.
                removeFromSetOrDeleteFromMap s2i intersectingSet highestWeightIntersection)
              intersectingSets (setToIntersectionMap st);
     wim0 \<leftarrow> removeFromSetOrDeleteFromMap (weightIntersectionMap st) highestWeight highestWeightIntersection;
     (im, ims, wim, s2i, intersectingPairs) \<leftarrow>
       forEachM (removeIntersectionStep w intersectingSets otherAffectedSets)
         otherAffectedIntersections (im0, ims0, wim0, s2i0, []);
     Some (st\<lparr>intersectionMap := im, intersectionMapSet := ims,
               setToIntersectionMap := s2i, weightIntersectionMap := wim\<rparr>, intersectingPairs)
   }"

definition addUpdateToMaps :: "('a, 'u) weighted \<Rightarrow> nat \<Rightarrow> nat \<Rightarrow> ('a, 'u) wstate \<Rightarrow> ('a, 'u) wstate option" where
  "addUpdateToMaps w set1 set2 st =
     (let intersection = intersectSets (rest (setNodes st ! set1)) (rest (setNodes st ! set2))
      in if length intersection > 0
         then do {
           let intersectionId = join w intersection;
           let im = pushPair (intersectionMap st) intersectionId (set1, set2);
           (ims, wim, intersectingSetsCount) \<leftarrow>
             (case map_get (intersectionMapSet st) intersectionId of
                Some intersectingMapSets \<Rightarrow> do {
                  let prevWeight = primaryWeight w (int (length intersection))
                                     (int (length intersectingMapSets));
                  wim1 \<leftarrow> removeFromSetOrDeleteFromMap (weightIntersectionMap st) prevWeight intersectionId;
                  let intersectingMapSets' =
                        addToIntersectingMapSets (addToIntersectingMapSets intersectingMapSets set1) set2;
                  Some (map_set (intersectionMapSet st) intersectionId intersectingMapSets', wim1,
                        int (length intersectingMapSets'))
                }
              | None \<Rightarrow>
                  Some (map_set (intersectionMapSet st) intersectionId (map_set (map_set [] set1 1) set2 1),
                        weightIntersectionMap st, 2));
           let weight = primaryWeight w (int (length intersection)) intersectingSetsCount;
           let wim' = addToSetOrCreateKeyInMap wim weight intersectionId;
           let s2i = addToSetOrCreateKeyInMap
                       (addToSetOrCreateKeyInMap (setToIntersectionMap st) set1 intersectionId)
                       set2 intersectionId;
           Some (st\<lparr>intersectionMap := im, intersectionMapSet := ims,
                     setToIntersectionMap := s2i, weightIntersectionMap := wim'\<rparr>)
         }
         else Some st)"

definition addUpdatedToMaps ::
  "('a, 'u) weighted \<Rightarrow> nat \<Rightarrow> nat list \<Rightarrow> (nat \<times> nat) list \<Rightarrow> ('a, 'u) wstate \<Rightarrow> ('a, 'u) wstate option" where
  "addUpdatedToMaps w newSet prevSets intersectingPairs st = do {
     st1 \<leftarrow> forEachM (\<lambda>s st. addUpdateToMaps w s newSet st) prevSets st;
     forEachM (\<lambda>(set1, set2) st. addUpdateToMaps w set1 set2 st) intersectingPairs st1
   }"

fun js_ge :: "jsnum \<Rightarrow> jsnum \<Rightarrow> bool" where
  "js_ge (Num a) (Num b) = (a \<ge> b)"
| "js_ge x NegInfinity = True"
| "js_ge NegInfinity (Num b) = False"

text \<open>
  \<^verbatim>\<open>updateSetObj\<close>, which is also the body of the loop over the intersecting sets: the
  node of the set gets the new node (at position \<open>new\<close>, holding \<open>elements\<close>) as an import
  and loses the elements of the new node from its rest. It returns the depth.
\<close>

definition updateSetObj :: "nat \<Rightarrow> nat \<Rightarrow> 'a list \<Rightarrow> 'a node list \<times> jsnum \<Rightarrow> 'a node list \<times> jsnum" where
  "updateSetObj s new elements acc =
     (let (nodes, d) = acc;
          setNode = nodes ! s;
          d' = (if js_ge (depth setNode) d then js_plus1 (depth setNode) else d)
      in (nodes[s := setNode\<lparr>rest := filter (\<lambda>element. element \<notin> set elements) (rest setNode),
                            importsOf := importsOf setNode @ [new]\<rparr>], d'))"

text \<open>
  The body of the loop over the other affected sets: a set that holds every element of
  the extracted intersection is updated like an intersecting set.
\<close>

definition updateOtherAffected :: "nat \<Rightarrow> nat \<Rightarrow> 'a list \<Rightarrow> 'a list \<Rightarrow> 'a node list \<times> jsnum \<Rightarrow> 'a node list \<times> jsnum" where
  "updateOtherAffected s new highestWeightIntersectionElements newSet acc =
     (if list_all (\<lambda>element. element \<in> set (rest (fst acc ! s))) highestWeightIntersectionElements
      then updateSetObj s new newSet acc else acc)"

text \<open>One turn of the \<^verbatim>\<open>while\<close> loop of \<^verbatim>\<open>splitSets\<close>.\<close>

definition splitSetsStep :: "('a, 'u) weighted \<Rightarrow> ('a, 'u) wstate \<Rightarrow> ('a, 'u) wstate option" where
  "splitSetsStep w st = do {
     (highestWeightIntersection, highestWeight) \<leftarrow>
       getHighestWeightIntersection w (weightIntersectionMap st) (intersectionMapSet st);
     mapSet \<leftarrow> map_get (intersectionMapSet st) highestWeightIntersection;
     let intersectingSets = map fst mapSet;
     (otherAffectedIntersections, otherAffectedSets) \<leftarrow>
       getOtherAffectedIntersections w intersectingSets (setToIntersectionMap st)
         highestWeightIntersection (intersectionMapSet st);
     (st1, intersectingPairs) \<leftarrow>
       removeUpdatedFromMaps w highestWeightIntersection intersectingSets otherAffectedIntersections
         otherAffectedSets st highestWeight;
     let new = length (setNodes st1);
     let newSet = cloneSet (split w highestWeightIntersection);
     let (nodes1, depth1) = fold (\<lambda>s acc. updateSetObj s new newSet acc) intersectingSets
                              (setNodes st1, Num 1);
     let highestWeightIntersectionElements = split w highestWeightIntersection;
     let (nodes2, depth2) =
           fold (\<lambda>s acc. updateOtherAffected s new highestWeightIntersectionElements newSet acc)
             otherAffectedSets (nodes1, depth1);
     let newIntersectingObj =
           \<lparr>collection = newSet, rest = cloneSet (split w highestWeightIntersection),
            importsOf = [], depth = depth2\<rparr>;
     addUpdatedToMaps w new [0 ..< new] intersectingPairs
       (st1\<lparr>setNodes := nodes2 @ [newIntersectingObj]\<rparr>)
   }"

text \<open>
  \<^verbatim>\<open>while (intersectionMap.size > 0)\<close>: the value \<open>None\<close> stands for a loop that never
  ends, \<open>Some None\<close> for a \<^verbatim>\<open>TypeError\<close> thrown in a turn.
\<close>

partial_function (option) splitSetsWhile ::
  "('a, 'u) weighted \<Rightarrow> ('a, 'u) wstate \<Rightarrow> ('a, 'u) wstate option option" where
  "splitSetsWhile w st =
     (if length (intersectionMap st) > 0
      then (case splitSetsStep w st of
              None \<Rightarrow> Some None
            | Some st' \<Rightarrow> splitSetsWhile w st')
      else Some (Some st))"

declare splitSetsWhile.simps [code]

definition initialState :: "('a, 'u) weighted \<Rightarrow> 'a list list \<Rightarrow> ('a, 'u) wstate" where
  "initialState w sets =
     (let nodes = createSetObjMap sets;
          im = createIntersectionMap w nodes;
          ims = createIntersectionMapSet im
      in \<lparr>setNodes = nodes, intersectionMap = im, intersectionMapSet = ims,
          setToIntersectionMap = createSetToIntersectionMap ims,
          weightIntersectionMap = getWeightIntersectionsMap w ims\<rparr>)"

text \<open>
  The result of an entry point: \<open>None\<close> when the call never returns, \<open>Some (Inl TypeError)\<close>
  when it throws, \<open>Some (Inr nodes)\<close> when it returns the node array.
\<close>

definition weightedSplitSets :: "('a, 'u) weighted \<Rightarrow> 'a list list \<Rightarrow> (error + 'a node list) option" where
  "weightedSplitSets w sets =
     map_option (\<lambda>r. case r of None \<Rightarrow> Inl TypeError | Some st \<Rightarrow> Inr (setNodes st))
       (splitSetsWhile w (initialState w sets))"

text \<open>
  \<^verbatim>\<open>convertArraysToSetsAndUseSplitFunction\<close>: every array becomes a new set, the sets are
  split, and every set node is turned into an array node; a root node gets the caller's
  array back, a generated node the spread of its set.
\<close>

definition mapSetsToArrayNodes :: "'a list list \<Rightarrow> 'a node list \<Rightarrow> 'a node list" where
  "mapSetsToArrayNodes arrays setNodes' =
     map (\<lambda>(i, n). \<lparr>collection = (if i < length arrays then arrays ! i else collection n),
                     rest = rest n, importsOf = importsOf n, depth = depth n\<rparr>)
       (enumerate 0 setNodes')"

definition weightedSplitArrays :: "('a, 'u) weighted \<Rightarrow> 'a list list \<Rightarrow> (error + 'a node list) option" where
  "weightedSplitArrays w arrays =
     map_option (map_sum id (mapSetsToArrayNodes arrays))
       (weightedSplitSets w (map js_new_set arrays))"

text \<open>
  The \<^verbatim>\<open>join\<close>/\<^verbatim>\<open>split\<close> pair of the documentation and the tests, on arrays of strings:
  \<^verbatim>\<open>(array) => array.sort().join('\x00')\<close> and \<^verbatim>\<open>(string) => string.split('\x00')\<close>.
\<close>

fun js_join :: "string \<Rightarrow> string list \<Rightarrow> string" where
  "js_join sep [] = []"
| "js_join sep [x] = x"
| "js_join sep (x # y # ys) = x @ sep @ js_join sep (y # ys)"

fun js_split :: "char \<Rightarrow> string \<Rightarrow> string list" where
  "js_split sep [] = [[]]"
| "js_split sep (c # cs) =
     (if c = sep then [] # js_split sep cs
      else (case js_split sep cs of [] \<Rightarrow> [[c]] | piece # pieces \<Rightarrow> (c # piece) # pieces))"

definition arrayJoiner :: "string list \<Rightarrow> string" where
  "arrayJoiner array = js_join [CHR 0x00] (sort array)"

definition primitiveSplitter :: "string \<Rightarrow> string list" where
  "primitiveSplitter string = js_split (CHR 0x00) string"

section \<open>Predicates used in the statements and proofs about the greedy splitter\<close>



definition depthStep :: "nat \<Rightarrow> 'a node list \<times> nat list \<Rightarrow> 'a node list \<times> nat list" where
  "depthStep = (\<lambda>j (nodes, imported).
                (nodes[j := (nodes ! j)\<lparr>depth :=
                     js_plus1 (js_max (map (\<lambda>i. depth (nodes ! i))
                                 (filter (\<lambda>i. j \<in> set (importsOf (nodes ! i))) imported)))\<rparr>],
                 imported @ [j]))"

definition sameFields :: "'a node list \<Rightarrow> 'a node list \<Rightarrow> bool" where
  "sameFields ns ns' = (length ns' = length ns \<and>
     (\<forall>k < length ns. collection (ns' ! k) = collection (ns ! k) \<and> rest (ns' ! k) = rest (ns ! k)
        \<and> importsOf (ns' ! k) = importsOf (ns ! k)))"

definition rootsKept :: "'a::linorder sort_arg \<Rightarrow> 'a list list \<Rightarrow> 'a node list \<Rightarrow> bool" where
  "rootsKept srt arrays ns = (length arrays \<le> length ns \<and>
     (\<forall>k < length arrays. collection (ns ! k) = arrays ! k
        \<and> (\<exists>P. rest (ns ! k) = filter P (sortedCopy srt (arrays ! k)))))"

text \<open>
  A sorter function that compares the tens of two numbers,
  \<^verbatim>\<open>(a, b) => Math.floor(a / 10) - Math.floor(b / 10)\<close>, and the node arrays that the loop
  of \<^verbatim>\<open>splitArrays\<close> goes through with it on the arrays \<open>[1, 1, 30]\<close> and \<open>[2, 2]\<close>: after
  \<open>k\<close> passes, \<open>k\<close> nodes have lost the array \<open>[2, 2]\<close> to the node generated after them.
\<close>

definition tens :: "int \<Rightarrow> int \<Rightarrow> int" where
  "tens a b = a div 10 - b div 10"

definition loopState :: "nat \<Rightarrow> int node list" where
  "loopState k =
     \<lparr>collection = [1, 1, 30], rest = [1, 1, 30], importsOf = [], depth = Num 0\<rparr>
     # map (\<lambda>i. \<lparr>collection = [2, 2], rest = [], importsOf = [i + 2],
                   depth = (if i = 0 then Num 0 else Num 1)\<rparr>) [0..<k]
     @ [\<lparr>collection = [2, 2], rest = [2, 2], importsOf = [],
         depth = (if k = 0 then Num 0 else Num 1)\<rparr>]"


text \<open>
  A consistent comparator for the values of a set, as \<^verbatim>\<open>Array.prototype.sort\<close> asks of its
  compare function: it returns 0 on a value and itself, its zero results are symmetric
  and transitive, and so are its negative and its positive results. \<open>consistentSort\<close>
  asks it of a sorter function for the elements of an array.
\<close>

definition consistentComparator :: "'a set \<Rightarrow> ('a \<Rightarrow> 'a \<Rightarrow> int) \<Rightarrow> bool" where
  "consistentComparator S f = ((\<forall>a \<in> S. f a a = 0)
     \<and> (\<forall>a \<in> S. \<forall>b \<in> S. f a b = 0 \<longrightarrow> f b a = 0)
     \<and> (\<forall>a \<in> S. \<forall>b \<in> S. \<forall>c \<in> S. f a b = 0 \<and> f b c = 0 \<longrightarrow> f a c = 0)
     \<and> (\<forall>a \<in> S. \<forall>b \<in> S. \<forall>c \<in> S. f a b < 0 \<and> f b c < 0 \<longrightarrow> f a c < 0)
     \<and> (\<forall>a \<in> S. \<forall>b \<in> S. \<forall>c \<in> S. f a b > 0 \<and> f b c > 0 \<longrightarrow> f a c > 0))"

fun consistentSort :: "'a sort_arg \<Rightarrow> 'a list \<Rightarrow> bool" where
  "consistentSort (SortTrue toString) array = True"
| "consistentSort SortFalse array = True"
| "consistentSort (Sorter sorter) array = consistentComparator (set array) sorter"


section \<open>Predicates on node arrays\<close>

text \<open>
  The imports of a node array point forward when every import of a node is a later node
  of the array; the array is locally complete when the collection of every node holds
  the elements of its rest and of the collections of its imports, and no other.
  \<open>reconstructs\<close> is the reconstruction of the inputs from the root nodes, and
  \<open>wellFormedDag\<close> says that no node imports itself through any chain of imports, that a
  node that no node imports has depth 0, and that an import is deeper than its importer.
\<close>

definition forwardImports :: "'a node list \<Rightarrow> bool" where
  "forwardImports ns = (\<forall>k < length ns. \<forall>j \<in> set (importsOf (ns ! k)). k < j \<and> j < length ns)"

definition locallyComplete :: "'a node list \<Rightarrow> bool" where
  "locallyComplete ns = (\<forall>k < length ns.
     set (collection (ns ! k)) = set (rest (ns ! k)) \<union> (\<Union>j \<in> set (importsOf (ns ! k)). set (collection (ns ! j))))"

definition importRelation :: "'a node list \<Rightarrow> (nat \<times> nat) set" where
  "importRelation ns = {(k, j). k < length ns \<and> j \<in> set (importsOf (ns ! k))}"


definition wellFormedDag :: "'a node list \<Rightarrow> bool" where
  "wellFormedDag nodes = (acyclic (importRelation nodes)
     \<and> (\<forall>j < length nodes. (\<forall>k < length nodes. j \<notin> set (importsOf (nodes ! k))) \<longrightarrow> depth (nodes ! j) = Num 0)
     \<and> (\<forall>k < length nodes. \<forall>j \<in> set (importsOf (nodes ! k)).
           j < length nodes \<and> (\<exists>a b. depth (nodes ! k) = Num a \<and> depth (nodes ! j) = Num b \<and> a + 1 \<le> b)))"

definition greedyInv :: "nat \<Rightarrow> 'a node list \<Rightarrow> bool" where
  "greedyInv n0 ns = (n0 \<le> length ns \<and> forwardImports ns \<and> locallyComplete ns
     \<and> (\<forall>k < n0. depth (ns ! k) = Num 0)
     \<and> (\<forall>j. n0 \<le> j \<and> j < length ns \<longrightarrow>
            depth (ns ! j) = Num 1 \<and> (\<exists>k < j. j \<in> set (importsOf (ns ! k))))
     \<and> (\<forall>k < length ns. \<forall>j \<in> set (importsOf (ns ! k)). n0 \<le> j))"

definition depthsAssigned :: "nat \<Rightarrow> nat \<Rightarrow> 'a node list \<Rightarrow> 'a node list \<Rightarrow> bool" where
  "depthsAssigned n0 m ns nsm = (sameFields ns nsm
     \<and> (\<forall>i. m \<le> i \<and> i < length ns \<longrightarrow> depth (nsm ! i) = depth (ns ! i))
     \<and> (\<forall>k < n0. depth (nsm ! k) = Num 0)
     \<and> (\<forall>j. n0 \<le> j \<and> j < m \<longrightarrow> (\<exists>b. depth (nsm ! j) = Num b \<and> 1 \<le> b))
     \<and> (\<forall>k j. k < length ns \<longrightarrow> j \<in> set (importsOf (ns ! k)) \<longrightarrow> j < m \<longrightarrow>
           (\<exists>a b. depth (nsm ! k) = Num a \<and> depth (nsm ! j) = Num b \<and> a + 1 \<le> b)))"

definition sameSets :: "'a node list \<Rightarrow> 'a node list \<Rightarrow> bool" where
  "sameSets ns ns' = (length ns' = length ns \<and>
     (\<forall>k < length ns. set (collection (ns' ! k)) = set (collection (ns ! k))
        \<and> set (rest (ns' ! k)) = set (rest (ns ! k))
        \<and> importsOf (ns' ! k) = importsOf (ns ! k) \<and> depth (ns' ! k) = depth (ns ! k)))"

text \<open>
  What all splitters establish of a node array with \<open>n0\<close> root nodes: imports point
  forward, every collection is its rest and the collections of its imports, root nodes
  have depth 0, every generated node has an importer, and the depth grows along imports.
\<close>

definition splitResult :: "nat \<Rightarrow> 'a node list \<Rightarrow> bool" where
  "splitResult n0 ns = (n0 \<le> length ns \<and> forwardImports ns \<and> locallyComplete ns
     \<and> (\<forall>k < n0. depth (ns ! k) = Num 0)
     \<and> (\<forall>j. n0 \<le> j \<and> j < length ns \<longrightarrow> (\<exists>k < j. j \<in> set (importsOf (ns ! k))))
     \<and> (\<forall>k j. k < length ns \<longrightarrow> j \<in> set (importsOf (ns ! k)) \<longrightarrow>
           (\<exists>a b. depth (ns ! k) = Num a \<and> depth (ns ! j) = Num b \<and> a + 1 \<le> b)))"

section \<open>Predicates on the state of the weighted splitter\<close>

text \<open>
  The maps of a run name working sets by the position of their node. A run keeps the
  pairs of \<^verbatim>\<open>intersectionMap\<close> and the sets of \<^verbatim>\<open>intersectionMapSet\<close> within the node array,
  and every key of \<^verbatim>\<open>intersectionMapSet\<close> splits into elements of the collections of its
  sets. This needs \<^verbatim>\<open>split\<close> to undo \<^verbatim>\<open>join\<close>, as a set, on the non-empty arrays of
  distinct elements of the inputs.
\<close>

text \<open>Every pair of \<^verbatim>\<open>intersectionMap\<close> names two nodes of the array.\<close>

definition pairsValid :: "'a node list \<Rightarrow> ('u \<times> (nat \<times> nat) list) list \<Rightarrow> bool" where
  "pairsValid ns im = (\<forall>kv \<in> set im. \<forall>p \<in> set (snd kv). fst p < length ns \<and> snd p < length ns)"

text \<open>
  Every entry of \<^verbatim>\<open>intersectionMapSet\<close> has a set, and its key splits into elements of the
  collection of each of its sets.
\<close>

definition setsSound :: "('a, 'u) weighted \<Rightarrow> 'a node list \<Rightarrow> ('u \<times> (nat \<times> nat) list) list \<Rightarrow> bool" where
  "setsSound w ns ims = (\<forall>kv \<in> set ims. snd kv \<noteq> [] \<and>
     (\<forall>s \<in> fst ` set (snd kv). s < length ns \<and> set (split w (fst kv)) \<subseteq> set (collection (ns ! s))))"

text \<open>
  \<^verbatim>\<open>split\<close> undoes \<^verbatim>\<open>join\<close>, as a set, on every non-empty array of distinct elements
  of \<open>U\<close>; and the collections of a node array hold elements of \<open>U\<close> only.
\<close>

definition inverseOn :: "'a set \<Rightarrow> ('a, 'u) weighted \<Rightarrow> bool" where
  "inverseOn U w = (\<forall>xs. xs \<noteq> [] \<and> distinct xs \<and> set xs \<subseteq> U \<longrightarrow>
     set (split w (join w xs)) = set xs)"

definition elementsWithin :: "'a set \<Rightarrow> 'a node list \<Rightarrow> bool" where
  "elementsWithin U ns = (\<forall>k < length ns. set (collection (ns ! k)) \<subseteq> U)"

text \<open>The invariant of the \<^verbatim>\<open>while\<close> loop of \<^verbatim>\<open>splitSets\<close>.\<close>

definition weightedInv :: "('a, 'u) weighted \<Rightarrow> 'a list list \<Rightarrow> ('a, 'u) wstate \<Rightarrow> bool" where
  "weightedInv w sets st = (splitResult (length sets) (setNodes st)
     \<and> (\<forall>k < length sets. collection (setNodes st ! k) = sets ! k)
     \<and> elementsWithin (\<Union> (set ` set sets)) (setNodes st)
     \<and> pairsValid (setNodes st) (intersectionMap st)
     \<and> setsSound w (setNodes st) (intersectionMapSet st))"

text \<open>The pairs of a list name positions below \<open>n\<close>.\<close>

definition pairsIn :: "nat \<Rightarrow> (nat \<times> nat) list \<Rightarrow> bool" where
  "pairsIn n ps = (\<forall>p \<in> set ps. fst p < n \<and> snd p < n)"

text \<open>
  \<open>splitResult\<close> in two parts: the structure of the array, with every depth a number, and
  the generated nodes below \<open>m\<close> having an importer.
\<close>

definition structured :: "nat \<Rightarrow> 'a node list \<Rightarrow> bool" where
  "structured n0 ns = (forwardImports ns \<and> locallyComplete ns
     \<and> (\<forall>k < n0. depth (ns ! k) = Num 0)
     \<and> (\<forall>k < length ns. \<exists>a. depth (ns ! k) = Num a)
     \<and> (\<forall>k j. k < length ns \<longrightarrow> j \<in> set (importsOf (ns ! k)) \<longrightarrow>
           (\<exists>a b. depth (ns ! k) = Num a \<and> depth (ns ! j) = Num b \<and> a + 1 \<le> b)))"

definition importedFrom :: "nat \<Rightarrow> nat \<Rightarrow> 'a node list \<Rightarrow> bool" where
  "importedFrom n0 m ns = (\<forall>j. n0 \<le> j \<and> j < m \<longrightarrow> (\<exists>k < j. j \<in> set (importsOf (ns ! k))))"

text \<open>
  Inside a turn of the loop the new node is not yet in the array: \<open>extended\<close> appends it,
  with the depth reached so far, and \<open>foldInv\<close> is the invariant of the two loops over
  the sets that import it.
\<close>

definition extended :: "'a list \<Rightarrow> 'a node list \<times> jsnum \<Rightarrow> 'a node list" where
  "extended E acc = fst acc @ [\<lparr>collection = E, rest = E, importsOf = [], depth = snd acc\<rparr>]"

definition foldInv :: "nat \<Rightarrow> nat \<Rightarrow> 'a list \<Rightarrow> 'a list list \<Rightarrow> 'a node list \<times> jsnum \<Rightarrow> bool" where
  "foldInv n0 new E cols acc = (length (fst acc) = new \<and> n0 \<le> new
     \<and> map collection (fst acc) = cols
     \<and> structured n0 (extended E acc) \<and> importedFrom n0 new (extended E acc))"

text \<open>
  What holds of \<^verbatim>\<open>intersectionMap\<close> when it is created: every entry has a pair, and its key
  splits into elements of the collections of both sets of each pair.
\<close>

definition imSound :: "('a, 'u) weighted \<Rightarrow> 'a node list \<Rightarrow> ('u \<times> (nat \<times> nat) list) list \<Rightarrow> bool" where
  "imSound w ns im = (\<forall>kv \<in> set im. snd kv \<noteq> [] \<and>
     (\<forall>p \<in> set (snd kv). fst p < length ns \<and> snd p < length ns
        \<and> set (split w (fst kv)) \<subseteq> set (collection (ns ! fst p))
        \<and> set (split w (fst kv)) \<subseteq> set (collection (ns ! snd p))))"

section \<open>Properties of GetNodeMetrics\<close>

lemma collected_elements:
  fixes n :: "'a node_obj" and ns :: "'a node_obj list"
  shows "fst (getNodeMetricRecursive n m d) = reachableElements n"
    and "fst (flatMapImports ns m' d') = concat (map reachableElements ns)"
  by (induction n m d and ns m' d' rule: getNodeMetricRecursive_flatMapImports.induct)
     (auto simp: Let_def split: prod.splits)

text \<open>
  C4 (as amended). \<^verbatim>\<open>getNodeMetric\<close> throws exactly when some element of the node's own
  collection is not among the elements reachable from the node through \<^verbatim>\<open>rest\<close> and
  \<^verbatim>\<open>imports\<close>; otherwise it returns the node's metrics. Reachable elements that the
  collection does not hold, and multiplicities, are not checked.
\<close>

theorem getNodeMetric_raises_iff:
  "getNodeMetric nodeObj =
     (if set (obj_collection nodeObj) \<subseteq> set (reachableElements nodeObj)
      then Inr (metricOf nodeObj) else Inl NodeObjectNotValid)"
proof -
  obtain els ms where r: "getNodeMetricRecursive nodeObj initialMetrics 0 = (els, ms)"
    by (cases "getNodeMetricRecursive nodeObj initialMetrics 0")
  have "els = reachableElements nodeObj"
    using collected_elements(1) [of nodeObj initialMetrics 0] r by simp
  then show ?thesis
    using r by (auto simp: getNodeMetric_def metricOf_def Let_def list_ex_iff)
qed

theorem getNodeMetric_raises_iff_witness:
  "getNodeMetric (NodeObj [1, 2 :: int] [1] [NodeObj [2] [2] [] (Num 1)] (Num 0)) =
     Inr \<lparr>nm_maxDepth = 1, nm_leaves = 1, nm_imports = 1, nm_nodes = 2, nm_avgDepth = Some 1\<rparr>
   \<and> getNodeMetric (NodeObj [1, 2 :: int] [1] [] (Num 0)) = Inl NodeObjectNotValid"
  using getNodeMetric_raises_iff [of "NodeObj [1, 2 :: int] [1] [NodeObj [2] [2] [] (Num 1)] (Num 0)"]
    getNodeMetric_raises_iff [of "NodeObj [1, 2 :: int] [1] [] (Num 0)"]
  by (simp add: metricOf_def initialMetrics_def Let_def)

text \<open>
  C4 as stated fails: the node below reaches the elements 1 and 2, its own collection
  holds 1 only, and \<^verbatim>\<open>getNodeMetric\<close> returns metrics.
\<close>

theorem getNodeMetric_extra_elements_counterexample:
  "set (reachableElements (NodeObj [1 :: int] [1, 2] [] (Num 0)))
     \<noteq> set (obj_collection (NodeObj [1 :: int] [1, 2] [] (Num 0)))
   \<and> getNodeMetric (NodeObj [1 :: int] [1, 2] [] (Num 0)) =
       Inr \<lparr>nm_maxDepth = 0, nm_leaves = 0, nm_imports = 0, nm_nodes = 1, nm_avgDepth = None\<rparr>"
  by (simp add: getNodeMetric_def initialMetrics_def Let_def)

section \<open>Properties of splitIntersectionsShallow\<close>

lemma set_add_set [simp]: "set (set_add s x) = insert x (set s)"
  by (auto simp: set_add_def)

lemma set_add_distinct [simp]: "distinct s \<Longrightarrow> distinct (set_add s x)"
  by (auto simp: set_add_def)

lemma js_new_set_snoc: "js_new_set (xs @ [x]) = set_add (js_new_set xs) x"
  by (simp add: js_new_set_def)

lemma js_new_set_set [simp]: "set (js_new_set xs) = set xs"
  by (induction xs rule: rev_induct) (auto simp: js_new_set_snoc, simp add: js_new_set_def)

lemma js_new_set_distinct [simp]: "distinct (js_new_set xs)"
  by (induction xs rule: rev_induct) (auto simp: js_new_set_snoc, simp add: js_new_set_def)

lemma fold_fold_concat: "fold (fold f) xss s = fold f (concat xss) s"
  by (induction xss arbitrary: s) auto

lemma multipleArrayElements_concat:
  "multipleArrayElements arrays = snd (fold arrStep (concat arrays) ([], []))"
  by (simp add: multipleArrayElements_def arrStep_def fold_fold_concat [symmetric]) 

lemma arr_pass_inv:
  "fold arrStep xs ([], []) = (a, m) \<Longrightarrow>
     set a = set xs \<and> (\<forall>e. e \<in> set m \<longleftrightarrow> 2 \<le> count_list xs e)"
proof (induction xs arbitrary: a m rule: rev_induct)
  case Nil
  then show ?case by simp
next
  case (snoc x xs)
  obtain a0 m0 where s: "fold arrStep xs ([], []) = (a0, m0)"
    by (cases "fold arrStep xs ([], [])")
  from snoc.IH [OF s] have ih: "set a0 = set xs" "\<And>e. e \<in> set m0 \<longleftrightarrow> 2 \<le> count_list xs e"
    by auto
  have c0: "x \<notin> set xs \<Longrightarrow> count_list xs x = 0" by (simp add: count_list_0_iff)
  have c1: "x \<in> set xs \<Longrightarrow> 1 \<le> count_list xs x"
    using count_list_0_iff [of xs x] by (cases "count_list xs x") auto
  show ?case
  proof (cases "x \<in> set a0")
    case True
    with snoc.prems s have "a = a0" "m = m0 @ [x]" by (auto simp: arrStep_def)
    then show ?thesis using ih True c1 by auto
  next
    case False
    with snoc.prems s have "a = a0 @ [x]" "m = m0" by (auto simp: arrStep_def)
    then show ?thesis using ih False c0 by auto
  qed
qed

lemma multipleArrayElements_set:
  "set (multipleArrayElements arrays) = {e. 2 \<le> count_list (concat arrays) e}"
proof -
  obtain a m where s: "fold arrStep (concat arrays) ([], []) = (a, m)"
    by (cases "fold arrStep (concat arrays) ([], [])")
  from arr_pass_inv [OF s] show ?thesis
    by (auto simp: multipleArrayElements_concat s)
qed

lemma multipleSetElements_concat:
  "multipleSetElements sets = snd (fold setStep (concat sets) ([], []))"
  by (simp add: multipleSetElements_def setStep_def fold_fold_concat [symmetric])

lemma set_pass_sim:
  "fold arrStep xs ([], []) = (a, m) \<Longrightarrow>
     fold setStep xs ([], []) = (a, js_new_set m)"
proof (induction xs arbitrary: a m rule: rev_induct)
  case Nil
  then show ?case by (simp add: js_new_set_def)
next
  case (snoc x xs)
  obtain a0 m0 where s: "fold arrStep xs ([], []) = (a0, m0)"
    by (cases "fold arrStep xs ([], [])")
  from snoc.IH [OF s] have ih: "fold setStep xs ([], []) = (a0, js_new_set m0)" .
  show ?case
    using snoc.prems s ih
    by (auto simp: arrStep_def setStep_def js_new_set_snoc set_add_def split: if_splits)
qed

lemma multipleSetElements_eq:
  "multipleSetElements xss = js_new_set (multipleArrayElements xss)"
proof -
  obtain a m where s: "fold arrStep (concat xss) ([], []) = (a, m)"
    by (cases "fold arrStep (concat xss) ([], [])")
  from set_pass_sim [OF s] show ?thesis
    by (simp add: multipleSetElements_concat multipleArrayElements_concat s)
qed

lemma map_set_keyed:
  "map_set (map (\<lambda>e. (e, f e)) ks) x (f x) = map (\<lambda>e. (e, f e)) (set_add ks x)"
  by (induction ks) (auto simp: set_add_def)

lemma multipleElementsMap_eq:
  "multipleElementsMap m = map (\<lambda>e. (e, singletonNode e)) (js_new_set m)"
proof (induction m rule: rev_induct)
  case Nil
  then show ?case by (simp add: multipleElementsMap_def js_new_set_def)
next
  case (snoc x m)
  then show ?case
    by (simp add: multipleElementsMap_def js_new_set_snoc map_set_keyed)
qed

lemma js_new_set_idem [simp]: "js_new_set (js_new_set m) = js_new_set m"
proof -
  have "distinct xs \<Longrightarrow> js_new_set xs = xs" for xs :: "'a list"
    by (induction xs rule: rev_induct) (auto simp: js_new_set_snoc set_add_def, simp add: js_new_set_def)
  then show ?thesis by simp
qed

lemma shallow_sets_eq_arrays:
  "splitIntersectionsSetsShallow xss = splitIntersectionsArrayShallow xss"
  by (simp add: splitIntersectionsSetsShallow_def splitIntersectionsArrayShallow_def
      multipleSetElements_eq multipleElementsMap_eq Let_def shallowRootNode_def)

lemma root_fold:
  "fold (\<lambda>element (r, i). if element \<in> M then (r, i @ [g element]) else (r @ [element], i)) s (r0, i0)
     = (r0 @ filter (\<lambda>e. e \<notin> M) s, i0 @ map g (filter (\<lambda>e. e \<in> M) s))"
  by (induction s arbitrary: r0 i0) auto

lemma shallowRootNode_eq:
  "shallowRootNode n multiple m s =
     \<lparr>collection = s, rest = filter (\<lambda>e. e \<notin> set multiple) s,
      importsOf = map (\<lambda>e. n + map_index m e) (filter (\<lambda>e. e \<in> set multiple) s), depth = Num 0\<rparr>"
  by (simp add: shallowRootNode_def root_fold)

lemma map_index_keyed:
  "e \<in> set ks \<Longrightarrow> map_index (map (\<lambda>e. (e, f e)) ks) e < length ks
     \<and> map f ks ! map_index (map (\<lambda>e. (e, f e)) ks) e = f e"
  by (induction ks) auto

lemma count_two_distinct:
  assumes "\<forall>c \<in> set colls. distinct c"
  shows "2 \<le> count_list (concat colls) e \<longleftrightarrow>
         (\<exists>i j. i < j \<and> j < length colls \<and> e \<in> set (colls ! i) \<and> e \<in> set (colls ! j))"
  using assms
proof (induction colls rule: rev_induct)
  case Nil
  then show ?case by simp
next
  case (snoc c colls)
  have dc: "distinct c" using snoc.prems by simp
  have cc: "count_list c e = (if e \<in> set c then 1 else 0)"
    using dc by (induction c) auto
  have ih: "2 \<le> count_list (concat colls) e \<longleftrightarrow>
         (\<exists>i j. i < j \<and> j < length colls \<and> e \<in> set (colls ! i) \<and> e \<in> set (colls ! j))"
    using snoc by simp
  have pos: "1 \<le> count_list (concat colls) e \<longleftrightarrow> (\<exists>i < length colls. e \<in> set (colls ! i))"
  proof -
    have "1 \<le> count_list (concat colls) e \<longleftrightarrow> e \<in> set (concat colls)"
      using count_list_0_iff [of "concat colls" e] by (cases "count_list (concat colls) e") auto
    also have "\<dots> \<longleftrightarrow> (\<exists>c \<in> set colls. e \<in> set c)" by simp
    also have "\<dots> \<longleftrightarrow> (\<exists>i < length colls. e \<in> set (colls ! i))"
      by (metis in_set_conv_nth)
    finally show ?thesis .
  qed
  show ?case
  proof
    assume a: "2 \<le> count_list (concat (colls @ [c])) e"
    show "\<exists>i j. i < j \<and> j < length (colls @ [c]) \<and> e \<in> set ((colls @ [c]) ! i) \<and> e \<in> set ((colls @ [c]) ! j)"
    proof (cases "2 \<le> count_list (concat colls) e")
      case True
      with ih obtain i j where "i < j" "j < length colls" "e \<in> set (colls ! i)" "e \<in> set (colls ! j)"
        by blast
      then show ?thesis
        by (intro exI [of _ i] exI [of _ j]) (simp add: nth_append)
    next
      case False
      with a cc have "e \<in> set c" "1 \<le> count_list (concat colls) e"
        by (auto split: if_splits)
      with pos obtain i where "i < length colls" "e \<in> set (colls ! i)" by blast
      with \<open>e \<in> set c\<close> show ?thesis
        by (intro exI [of _ i] exI [of _ "length colls"]) (simp add: nth_append)
    qed
  next
    assume "\<exists>i j. i < j \<and> j < length (colls @ [c]) \<and> e \<in> set ((colls @ [c]) ! i) \<and> e \<in> set ((colls @ [c]) ! j)"
    then obtain i j where ij: "i < j" "j < length colls + 1" "e \<in> set ((colls @ [c]) ! i)"
      "e \<in> set ((colls @ [c]) ! j)" by auto
    show "2 \<le> count_list (concat (colls @ [c])) e"
    proof (cases "j < length colls")
      case True
      with ij have "\<exists>i j. i < j \<and> j < length colls \<and> e \<in> set (colls ! i) \<and> e \<in> set (colls ! j)"
        by (intro exI [of _ i] exI [of _ j]) (simp add: nth_append)
      with ih show ?thesis by simp
    next
      case False
      with ij have j: "j = length colls" by simp
      with ij have "e \<in> set c" "i < length colls" "e \<in> set (colls ! i)" by (auto simp: nth_append)
      with pos cc show ?thesis by auto
    qed
  qed
qed


lemma shallow_as_arrays:
  "splitIntersectionsShallow c = splitIntersectionsArrayShallow (collectionsOf c)"
  by (cases c) (simp_all add: shallow_sets_eq_arrays)

lemma shallow_array_form:
  "splitIntersectionsArrayShallow colls =
     map (\<lambda>s. \<lparr>collection = s, rest = filter (\<lambda>e. e \<notin> set (multipleArrayElements colls)) s,
               importsOf = map (\<lambda>e. length colls +
                    map_index (map (\<lambda>e. (e, singletonNode e)) (js_new_set (multipleArrayElements colls))) e)
                  (filter (\<lambda>e. e \<in> set (multipleArrayElements colls)) s),
               depth = Num 0\<rparr>) colls
     @ map singletonNode (js_new_set (multipleArrayElements colls))"
  by (simp add: splitIntersectionsArrayShallow_def Let_def multipleElementsMap_eq
      shallowRootNode_eq comp_def)

lemma shallow_extracts:
  fixes c :: "'a collections"
  defines "colls \<equiv> collectionsOf c"
  defines "nodes \<equiv> splitIntersectionsShallow c"
  shows "(\<exists>keys. distinct keys \<and> set keys = {e. 2 \<le> count_list (concat colls) e}
            \<and> length nodes = length colls + length keys
            \<and> drop (length colls) nodes = map singletonNode keys)
       \<and> (\<forall>i < length colls.
             collection (nodes ! i) = colls ! i \<and> depth (nodes ! i) = Num 0
           \<and> rest (nodes ! i) = filter (\<lambda>e. count_list (concat colls) e < 2) (colls ! i)
           \<and> (\<forall>p \<in> set (importsOf (nodes ! i)). length colls \<le> p \<and> p < length nodes)
           \<and> map ((!) nodes) (importsOf (nodes ! i))
               = map singletonNode (filter (\<lambda>e. 2 \<le> count_list (concat colls) e) (colls ! i)))
       \<and> ((\<forall>s \<in> set colls. distinct s) \<longrightarrow>
             (\<forall>e. 2 \<le> count_list (concat colls) e \<longleftrightarrow>
                (\<exists>i j. i < j \<and> j < length colls \<and> e \<in> set (colls ! i) \<and> e \<in> set (colls ! j))))"
proof -
  define M where "M = multipleArrayElements colls"
  define keys where "keys = js_new_set M"
  define m where "m = map (\<lambda>e. (e, singletonNode e)) keys"
  define root where "root = (\<lambda>s. \<lparr>collection = s, rest = filter (\<lambda>e. e \<notin> set M) s,
       importsOf = map (\<lambda>e. length colls + map_index m e) (filter (\<lambda>e. e \<in> set M) s),
       depth = Num 0\<rparr>)"
  have nodes: "nodes = map root colls @ map singletonNode keys"
    unfolding nodes_def shallow_as_arrays colls_def [symmetric] shallow_array_form
    by (simp add: root_def M_def keys_def m_def)
  have M: "set M = {e. 2 \<le> count_list (concat colls) e}"
    by (simp add: M_def multipleArrayElements_set)
  have inM: "e \<in> set M \<longleftrightarrow> 2 \<le> count_list (concat colls) e" for e
    using M by auto
  have part1: "\<exists>keys. distinct keys \<and> set keys = {e. 2 \<le> count_list (concat colls) e}
            \<and> length nodes = length colls + length keys
            \<and> drop (length colls) nodes = map singletonNode keys"
    by (rule exI [of _ keys]) (simp add: keys_def M nodes)
  have part2: "collection (nodes ! i) = colls ! i \<and> depth (nodes ! i) = Num 0
           \<and> rest (nodes ! i) = filter (\<lambda>e. count_list (concat colls) e < 2) (colls ! i)
           \<and> (\<forall>p \<in> set (importsOf (nodes ! i)). length colls \<le> p \<and> p < length nodes)
           \<and> map ((!) nodes) (importsOf (nodes ! i))
               = map singletonNode (filter (\<lambda>e. 2 \<le> count_list (concat colls) e) (colls ! i))"
    if i: "i < length colls" for i
  proof -
    have ni: "nodes ! i = root (colls ! i)"
      using i by (simp add: nodes nth_append)
    have idx: "map_index m e < length keys \<and> map singletonNode keys ! map_index m e = singletonNode e"
      if "e \<in> set M" for e
      using that map_index_keyed [of e keys singletonNode] by (simp add: m_def keys_def)
    have a: "rest (nodes ! i) = filter (\<lambda>e. count_list (concat colls) e < 2) (colls ! i)"
      by (simp add: ni root_def inM not_le)
    have imp: "importsOf (nodes ! i) = map (\<lambda>e. length colls + map_index m e) (filter (\<lambda>e. e \<in> set M) (colls ! i))"
      by (simp add: ni root_def)
    have len: "length nodes = length colls + length keys"
      by (simp add: nodes)
    have b: "\<forall>p \<in> set (importsOf (nodes ! i)). length colls \<le> p \<and> p < length nodes"
      unfolding imp len using idx by auto
    have c: "map ((!) nodes) (importsOf (nodes ! i))
               = map singletonNode (filter (\<lambda>e. 2 \<le> count_list (concat colls) e) (colls ! i))"
    proof -
      have "nodes ! (length colls + map_index m e) = singletonNode e" if "e \<in> set M" for e
        using idx [OF that] by (simp add: nodes nth_append)
      then show ?thesis
        unfolding imp by (simp add: inM cong: filter_cong)
    qed
    show ?thesis using a b c by (simp add: ni root_def)
  qed
  have part3: "(\<forall>s \<in> set colls. distinct s) \<longrightarrow>
             (\<forall>e. 2 \<le> count_list (concat colls) e \<longleftrightarrow>
                (\<exists>i j. i < j \<and> j < length colls \<and> e \<in> set (colls ! i) \<and> e \<in> set (colls ! j)))"
    using count_two_distinct [of colls] by blast
  show ?thesis using part1 part2 part3 by blast
qed

lemma shallow_example:
  "splitIntersectionsShallow (Sets [[1, 2, 3], [2, 3, 4], [3, 4, 5 :: int]]) =
     [\<lparr>collection = [1, 2, 3], rest = [1], importsOf = [3, 4], depth = Num 0\<rparr>,
      \<lparr>collection = [2, 3, 4], rest = [], importsOf = [3, 4, 5], depth = Num 0\<rparr>,
      \<lparr>collection = [3, 4, 5], rest = [5], importsOf = [4, 5], depth = Num 0\<rparr>,
      \<lparr>collection = [2], rest = [2], importsOf = [], depth = Num 1\<rparr>,
      \<lparr>collection = [3], rest = [3], importsOf = [], depth = Num 1\<rparr>,
      \<lparr>collection = [4], rest = [4], importsOf = [], depth = Num 1\<rparr>]"
  by code_simp

text \<open>
  C3 (as amended). \<^verbatim>\<open>splitIntersectionsShallow\<close> extracts exactly the elements that occur
  at least twice in the input collections taken together, each into its own singleton
  node of depth 1, after the root nodes; every input collection becomes a node of depth 0
  whose rest holds its elements that occur once and whose imports reference the singleton
  nodes of its other elements, in the order of these elements in the collection. For sets,
  and for arrays without a repeated element, the extracted elements are those of at least
  two input collections. On the sets \<open>{1,2,3}\<close>, \<open>{2,3,4}\<close>, \<open>{3,4,5}\<close> the result is the
  three roots with the rests \<open>{1}\<close>, \<open>{}\<close>, \<open>{5}\<close> and the singleton nodes of 2, 3 and 4.
\<close>

theorem splitIntersectionsShallow_extracts:
  fixes c :: "'a collections"
  defines "colls \<equiv> collectionsOf c"
  defines "nodes \<equiv> splitIntersectionsShallow c"
  shows "(\<exists>keys. distinct keys \<and> set keys = {e. 2 \<le> count_list (concat colls) e}
            \<and> length nodes = length colls + length keys
            \<and> drop (length colls) nodes
                = map (\<lambda>e. \<lparr>collection = [e], rest = [e], importsOf = [], depth = Num 1\<rparr>) keys)
       \<and> (\<forall>i < length colls.
             collection (nodes ! i) = colls ! i \<and> depth (nodes ! i) = Num 0
           \<and> rest (nodes ! i) = filter (\<lambda>e. count_list (concat colls) e < 2) (colls ! i)
           \<and> (\<forall>p \<in> set (importsOf (nodes ! i)). length colls \<le> p \<and> p < length nodes)
           \<and> map ((!) nodes) (importsOf (nodes ! i))
               = map (\<lambda>e. \<lparr>collection = [e], rest = [e], importsOf = [], depth = Num 1\<rparr>)
                   (filter (\<lambda>e. 2 \<le> count_list (concat colls) e) (colls ! i)))
       \<and> ((\<forall>s \<in> set colls. distinct s) \<longrightarrow>
             (\<forall>e. 2 \<le> count_list (concat colls) e \<longleftrightarrow>
                (\<exists>i j. i < j \<and> j < length colls \<and> e \<in> set (colls ! i) \<and> e \<in> set (colls ! j))))
       \<and> splitIntersectionsShallow (Sets [[1, 2, 3], [2, 3, 4], [3, 4, 5 :: int]]) =
           [\<lparr>collection = [1, 2, 3], rest = [1], importsOf = [3, 4], depth = Num 0\<rparr>,
            \<lparr>collection = [2, 3, 4], rest = [], importsOf = [3, 4, 5], depth = Num 0\<rparr>,
            \<lparr>collection = [3, 4, 5], rest = [5], importsOf = [4, 5], depth = Num 0\<rparr>,
            \<lparr>collection = [2], rest = [2], importsOf = [], depth = Num 1\<rparr>,
            \<lparr>collection = [3], rest = [3], importsOf = [], depth = Num 1\<rparr>,
            \<lparr>collection = [4], rest = [4], importsOf = [], depth = Num 1\<rparr>]"
  using shallow_extracts [of c] shallow_example
  unfolding colls_def nodes_def singletonNode_def by blast

theorem splitIntersectionsShallow_extracts_witness:
  "rest (splitIntersectionsShallow (Arrays [[1, 2], [2, 3 :: int]]) ! 0) = [1]
   \<and> map ((!) (splitIntersectionsShallow (Arrays [[1, 2], [2, 3 :: int]])))
        (importsOf (splitIntersectionsShallow (Arrays [[1, 2], [2, 3 :: int]]) ! 1))
      = [\<lparr>collection = [2], rest = [2], importsOf = [], depth = Num 1\<rparr>]"
proof -
  have "0 < length (collectionsOf (Arrays [[1, 2], [2, 3 :: int]]))"
    and "1 < length (collectionsOf (Arrays [[1, 2], [2, 3 :: int]]))"
    by simp_all
  with splitIntersectionsShallow_extracts [of "Arrays [[1, 2], [2, 3 :: int]]"]
  have "rest (splitIntersectionsShallow (Arrays [[1, 2], [2, 3 :: int]]) ! 0)
          = filter (\<lambda>e. count_list (concat (collectionsOf (Arrays [[1, 2], [2, 3 :: int]]))) e < 2)
              (collectionsOf (Arrays [[1, 2], [2, 3 :: int]]) ! 0)"
    and "map ((!) (splitIntersectionsShallow (Arrays [[1, 2], [2, 3 :: int]])))
        (importsOf (splitIntersectionsShallow (Arrays [[1, 2], [2, 3 :: int]]) ! 1))
      = map (\<lambda>e. \<lparr>collection = [e], rest = [e], importsOf = [], depth = Num 1\<rparr>)
          (filter (\<lambda>e. 2 \<le> count_list (concat (collectionsOf (Arrays [[1, 2], [2, 3 :: int]]))) e)
             (collectionsOf (Arrays [[1, 2], [2, 3 :: int]]) ! 1))"
    by blast+
  then show ?thesis by simp
qed

text \<open>
  C3 as stated fails on an array with a repeated element: in the one input \<open>[1, 1]\<close> the
  element 1 occurs in one input collection only, and it is extracted into a singleton
  node all the same; the rest of the root does not hold it.
\<close>

theorem splitIntersectionsShallow_repeated_element_counterexample:
  "length (filter (\<lambda>array. (1 :: int) \<in> set array) [[1, 1]]) = 1
   \<and> splitIntersectionsShallow (Arrays [[1, 1 :: int]]) =
       [\<lparr>collection = [1, 1], rest = [], importsOf = [1, 1], depth = Num 0\<rparr>,
        \<lparr>collection = [1], rest = [1], importsOf = [], depth = Num 1\<rparr>]"
  by code_simp

section \<open>The documented example of the weighted splitter\<close>

text \<open>
  C9. With the default weight functions and the \<^verbatim>\<open>join\<close>/\<^verbatim>\<open>split\<close> pair over
  \<^verbatim>\<open>'\x00'\<close>, the arrays \<open>['1','2','3']\<close>, \<open>['2','3','4']\<close>, \<open>['3','4','5']\<close> give a hierarchy
  of two levels: the first turn of the loop extracts the group \<open>{2,3}\<close> (the node at
  position 3), a later turn extracts \<open>{3}\<close> from it (the node at position 4, imported by
  the node at position 3 and of depth 2), and the greatest depth of the node array is 2.
\<close>

theorem weighted_example_two_levels:
  "weightedSplitArrays (WeightedIntersectionsSplitter arrayJoiner primitiveSplitter)
      [[''1'', ''2'', ''3''], [''2'', ''3'', ''4''], [''3'', ''4'', ''5'']] =
     Some (Inr
       [\<lparr>collection = [''1'', ''2'', ''3''], rest = [''1''], importsOf = [3], depth = Num 0\<rparr>,
        \<lparr>collection = [''2'', ''3'', ''4''], rest = [], importsOf = [3, 5], depth = Num 0\<rparr>,
        \<lparr>collection = [''3'', ''4'', ''5''], rest = [''5''], importsOf = [4, 5], depth = Num 0\<rparr>,
        \<lparr>collection = [''2'', ''3''], rest = [''2''], importsOf = [4], depth = Num 1\<rparr>,
        \<lparr>collection = [''3''], rest = [''3''], importsOf = [], depth = Num 2\<rparr>,
        \<lparr>collection = [''4''], rest = [''4''], importsOf = [], depth = Num 1\<rparr>])
   \<and> map_option (\<lambda>st. map (\<lambda>n. (collection n, rest n)) (setNodes st))
        (splitSetsStep (WeightedIntersectionsSplitter arrayJoiner primitiveSplitter)
           (initialState (WeightedIntersectionsSplitter arrayJoiner primitiveSplitter)
              [[''1'', ''2'', ''3''], [''2'', ''3'', ''4''], [''3'', ''4'', ''5'']])) =
     Some [([''1'', ''2'', ''3''], [''1'']), ([''2'', ''3'', ''4''], [''4'']),
           ([''3'', ''4'', ''5''], [''3'', ''4'', ''5'']), ([''2'', ''3''], [''2'', ''3''])]
   \<and> js_max (map depth
        [\<lparr>collection = [''1'', ''2'', ''3''], rest = [''1''], importsOf = [3], depth = Num 0\<rparr>,
         \<lparr>collection = [''2'', ''3'', ''4''], rest = [], importsOf = [3, 5], depth = Num 0\<rparr>,
         \<lparr>collection = [''3'', ''4'', ''5''], rest = [''5''], importsOf = [4, 5], depth = Num 0\<rparr>,
         \<lparr>collection = [''2'', ''3''], rest = [''2''], importsOf = [4], depth = Num 1\<rparr>,
         \<lparr>collection = [''3''], rest = [''3''], importsOf = [], depth = Num 2\<rparr>,
         \<lparr>collection = [''4''], rest = [''4''], importsOf = [], depth = Num 1\<rparr>]) = Num 2"
  by code_simp

section \<open>The stopping condition of the greedy splitter\<close>

text \<open>
  C2 fails on the code. The two arrays \<open>[1]\<close> and \<open>[1]\<close> share the element 1; its count 2
  is the only count, \<^verbatim>\<open>counts.slice(0, -1)\<close> drops it, no pass extracts anything, and
  \<^verbatim>\<open>splitArrays\<close> and \<^verbatim>\<open>splitSets\<close> return two nodes whose rests both hold 1.
\<close>

theorem splitArrays_leaves_shared_element:
  "splitArrays SortFalse [[1], [1 :: int]] =
     Some [\<lparr>collection = [1], rest = [1], importsOf = [], depth = Num 0\<rparr>,
           \<lparr>collection = [1], rest = [1], importsOf = [], depth = Num 0\<rparr>]
   \<and> splitSets SortFalse [[1], [1 :: int]] =
     Some [\<lparr>collection = [1], rest = [1], importsOf = [], depth = Num 0\<rparr>,
           \<lparr>collection = [1], rest = [1], importsOf = [], depth = Num 0\<rparr>]
   \<and> splitArrays SortFalse [[1, 2], [1, 2], [1, 3], [3 :: int]] =
     Some [\<lparr>collection = [1, 2], rest = [1, 2], importsOf = [], depth = Num 0\<rparr>,
           \<lparr>collection = [1, 2], rest = [1, 2], importsOf = [], depth = Num 0\<rparr>,
           \<lparr>collection = [1, 3], rest = [1, 3], importsOf = [], depth = Num 0\<rparr>,
           \<lparr>collection = [3], rest = [3], importsOf = [], depth = Num 0\<rparr>]"
  by code_simp

section \<open>Lemmas about the greedy splitter\<close>

lemma splitWhile_invariant:
  assumes "splitWhile isect nodes = Some res"
    and "I nodes"
    and "\<And>ns l ns'. I ns \<Longrightarrow> splitArrayNodes isect ns = (l, ns') \<Longrightarrow> I ns'"
  shows "I res"
proof -
  have "isect = isect \<longrightarrow> I nodes \<longrightarrow> I res"
  proof (rule splitWhile.raw_induct [where P = "\<lambda>i n z. i = isect \<longrightarrow> I n \<longrightarrow> I z", OF _ assms(1)])
    fix rec i n z
    assume IH: "\<And>n' b y. rec n' b = Some y \<Longrightarrow> n' = isect \<longrightarrow> I b \<longrightarrow> I y"
      and body: "(case splitArrayNodes i n of
         (longest, arrayNodes') \<Rightarrow> if 0 < longest then rec i arrayNodes' else Some arrayNodes') = Some z"
    show "i = isect \<longrightarrow> I n \<longrightarrow> I z"
    proof (intro impI)
      assume e: "i = isect" and inv: "I n"
      obtain l ns' where s: "splitArrayNodes isect n = (l, ns')"
        by (cases "splitArrayNodes isect n")
      have i': "I ns'" using assms(3) [OF inv s] .
      show "I z"
      proof (cases "l > 0")
        case True
        with body s e have "rec isect ns' = Some z" by simp
        with IH [of isect ns' z] i' show ?thesis by simp
      next
        case False
        with body s e have "z = ns'" by simp
        with i' show ?thesis by simp
      qed
    qed
  qed
  with assms(2) show ?thesis by simp
qed

lemma getLongestIntersection_cases:
  "getLongestIntersection isect base nxt longest = [] \<or>
   (\<exists>s \<in> set nxt. \<exists>a \<in> set nxt \<union> set base.
       getLongestIntersection isect base nxt longest = isect s a)"
proof -
  define A where "A = nxt @ base"
  define inner where "inner = (\<lambda>s all (lg :: nat, li :: 'a list).
                  (let intersection = isect s all
                   in if lg < length intersection then (length intersection, intersection)
                      else (lg, li)))"
  define Q where "Q = (\<lambda>(lg :: nat, li). li = [] \<or> (\<exists>s \<in> set nxt. \<exists>a \<in> set A. li = isect s a))"
  have inner: "Q (fold (inner s) as acc)" if "Q acc" "s \<in> set nxt" "set as \<subseteq> set A" for s as acc
    using that
  proof (induction as arbitrary: acc)
    case Nil
    then show ?case by simp
  next
    case (Cons a as)
    have "Q (inner s a acc)"
      using Cons.prems by (cases acc) (auto simp: Q_def inner_def Let_def)
    with Cons show ?case by simp
  qed
  have outer: "Q (fold (\<lambda>(i, s) acc. fold (inner s) (drop (i + 1) A) acc) ps acc)"
    if "Q acc" "snd ` set ps \<subseteq> set nxt" for ps acc
    using that
  proof (induction ps arbitrary: acc)
    case Nil
    then show ?case by simp
  next
    case (Cons p ps)
    obtain i s where p: "p = (i, s)" by (cases p)
    have "Q (fold (inner s) (drop (i + 1) A) acc)"
      using Cons.prems p set_drop_subset [of "i + 1" A] by (intro inner) auto
    with Cons p show ?case by simp
  qed
  have "Q (fold (\<lambda>(i, s) acc. fold (inner s) (drop (i + 1) A) acc) (enumerate 0 nxt) (longest, []))"
    by (rule outer) (auto simp: Q_def in_set_enumerate_eq)
  moreover have "getLongestIntersection isect base nxt longest =
      snd (fold (\<lambda>(i, s) acc. fold (inner s) (drop (i + 1) A) acc) (enumerate 0 nxt) (longest, []))"
    unfolding getLongestIntersection_def A_def inner_def Let_def by (rule refl)
  ultimately show ?thesis
    by (cases "fold (\<lambda>(i, s) acc. fold (inner s) (drop (i + 1) A) acc) (enumerate 0 nxt) (longest, [])")
       (auto simp: Q_def A_def)
qed

text \<open>
  What one pass does: nothing, or the extraction of a non-empty intersection that the
  intersection function gave for the rest of a node without its single elements.
\<close>

lemma splitLoopElements_cases:
  assumes "splitLoopElements isect nodes els filtered base longest li = (l, nodes')"
    and "longest = length li"
    and "li = [] \<or> (\<exists>f \<in> set base. \<exists>a. li = isect (rest f) a)"
  shows "(l = 0 \<and> nodes' = nodes) \<or>
         (\<exists>li'. li' \<noteq> [] \<and> l = length li' \<and> nodes' = extractIntersection nodes li'
            \<and> (\<exists>f \<in> set base \<union> set filtered. \<exists>a. li' = isect (rest f) a))"
  using assms
proof (induction els arbitrary: filtered base longest li)
  case Nil
  then show ?case by simp
next
  case (Cons element els)
  define candidates where "candidates = filter (\<lambda>f. length (rest f) > longest) filtered"
  define nextI where "nextI = filter (\<lambda>f. element \<in> set (rest f)) candidates"
  define nextF where "nextF = filter (\<lambda>f. element \<notin> set (rest f)) candidates"
  define inter where "inter = getLongestIntersection isect (map rest base) (map rest nextI) longest"
  define longest' where "longest' = (if longest < length inter then length inter else longest)"
  define li' where "li' = (if longest < length inter then inter else li)"
  have sub: "set nextI \<subseteq> set filtered" "set nextF \<subseteq> set filtered"
    by (auto simp: nextI_def nextF_def candidates_def)
  have ll: "longest' = length li'"
    using Cons.prems(2) by (simp add: longest'_def li'_def)
  have src: "li' = [] \<or> (\<exists>f \<in> set (base @ nextI). \<exists>a. li' = isect (rest f) a)"
  proof (cases "longest < length inter")
    case True
    then have "inter \<noteq> []" by auto
    with getLongestIntersection_cases [of isect "map rest base" "map rest nextI" longest]
    obtain s a where "s \<in> set (map rest nextI)" "inter = isect s a"
      by (auto simp: inter_def)
    with True show ?thesis by (auto simp: li'_def)
  next
    case False
    with Cons.prems(3) show ?thesis by (auto simp: li'_def)
  qed
  have unfold: "splitLoopElements isect nodes (element # els) filtered base longest li =
     (if length nextF = 0
      then (if length li' > 0 then (longest', extractIntersection nodes li') else (longest', nodes))
      else splitLoopElements isect nodes els nextF (base @ nextI) longest' li')"
    by (auto simp: Let_def candidates_def nextI_def nextF_def inter_def longest'_def li'_def)
  show ?case
  proof (cases "length nextF = 0")
    case True
    show ?thesis
    proof (cases "length li' > 0")
      case True
      with \<open>length nextF = 0\<close> unfold Cons.prems(1)
      have "l = longest'" "nodes' = extractIntersection nodes li'" by auto
      moreover from True have "li' \<noteq> []" by auto
      ultimately show ?thesis using ll src sub by auto
    next
      case False
      with \<open>length nextF = 0\<close> unfold Cons.prems(1) ll show ?thesis by auto
    qed
  next
    case False
    with unfold Cons.prems(1)
    have "splitLoopElements isect nodes els nextF (base @ nextI) longest' li' = (l, nodes')" by simp
    from Cons.IH [OF this ll src]
    consider "l = 0 \<and> nodes' = nodes"
      | li2 f a where "li2 \<noteq> []" "l = length li2" "nodes' = extractIntersection nodes li2"
          "f \<in> set (base @ nextI) \<union> set nextF" "li2 = isect (rest f) a"
      by blast
    then show ?thesis
    proof cases
      case 1
      then show ?thesis by simp
    next
      case 2
      from 2(4) sub have "f \<in> set base \<union> set filtered" by auto
      with 2 show ?thesis by blast
    qed
  qed
qed

lemma splitArrayNodes_cases:
  assumes "splitArrayNodes isect nodes = (l, nodes')"
  shows "(l = 0 \<and> nodes' = nodes) \<or>
         (\<exists>li n S a. li \<noteq> [] \<and> l = length li \<and> nodes' = extractIntersection nodes li
            \<and> n \<in> set nodes \<and> li = isect (filter (\<lambda>e. e \<notin> S) (rest n)) a)"
proof -
  define ecm where "ecm = elementCountMap (elementCount nodes)"
  define counts where "counts = rev (sort (map fst ecm))"
  define single where "single = (case map_get ecm 1 of Some elements \<Rightarrow> elements | None \<Rightarrow> [])"
  define filtered where "filtered = map (\<lambda>n. \<lparr>collection = collection n,
                                           rest = filter (\<lambda>element. element \<notin> set single) (rest n),
                                           importsOf = importsOf n, depth = Num 0\<rparr>) nodes"
  define els where "els = concat (map (\<lambda>count. case map_get ecm count of Some elements \<Rightarrow> elements | None \<Rightarrow> [])
                            (butlast counts))"
  have unfold: "splitArrayNodes isect nodes =
      (if (case counts of [] \<Rightarrow> False | c # _ \<Rightarrow> c = 1) then (0, nodes)
       else splitLoopElements isect nodes els filtered [] 0 [])"
    by (simp only: splitArrayNodes_def Let_def ecm_def counts_def single_def filtered_def els_def)
  show ?thesis
  proof (cases "case counts of [] \<Rightarrow> False | c # _ \<Rightarrow> c = 1")
    case True
    with unfold assms show ?thesis by simp
  next
    case False
    with unfold assms have "splitLoopElements isect nodes els filtered [] 0 [] = (l, nodes')" by simp
    from splitLoopElements_cases [OF this]
    have "(l = 0 \<and> nodes' = nodes) \<or>
         (\<exists>li'. li' \<noteq> [] \<and> l = length li' \<and> nodes' = extractIntersection nodes li'
            \<and> (\<exists>f \<in> set [] \<union> set filtered. \<exists>a. li' = isect (rest f) a))"
      by simp
    then consider "l = 0 \<and> nodes' = nodes"
      | li f a where "li \<noteq> []" "l = length li" "nodes' = extractIntersection nodes li"
          "f \<in> set filtered" "li = isect (rest f) a"
      by auto
    then show ?thesis
    proof cases
      case 1
      then show ?thesis by simp
    next
      case 2
      from 2(4) obtain n where n: "n \<in> set nodes" "rest f = filter (\<lambda>e. e \<notin> set single) (rest n)"
        by (auto simp: filtered_def)
      show ?thesis
        using 2 n
        by (intro disjI2 exI [of _ li] exI [of _ n] exI [of _ "set single"] exI [of _ a]) simp
    qed
  qed
qed





lemma set_insert_with [simp]: "set (insert_with f x xs) = insert x (set xs)"
  by (induction xs) auto

lemma set_sort_with [simp]: "set (sort_with f xs) = set xs"
  by (induction xs) (auto simp: sort_with_def)

lemma set_sortedCopy [simp]: "set (sortedCopy srt a) = set a"
  by (cases srt) auto



lemma sorted_wrt_swap:
  assumes "sorted_wrt P (xs @ ys)" and sym: "\<And>a b. P a b \<Longrightarrow> P b a"
  shows "sorted_wrt P (ys @ xs)"
  using assms by (auto simp: sorted_wrt_append)


lemma addMaxDepthToNodes_fold:
  "addMaxDepthToNodes arrayNodes =
     fst (fold depthStep (filter (\<lambda>i. depth (arrayNodes ! i) \<noteq> Num 0) [0..<length arrayNodes])
            (arrayNodes, filter (\<lambda>i. depth (arrayNodes ! i) = Num 0) [0..<length arrayNodes]))"
  unfolding addMaxDepthToNodes_def depthStep_def Let_def by (rule refl)

lemma depthStep_fold_fields: "sameFields ns (fst (fold depthStep js (ns, im)))"
proof (induction js arbitrary: ns im)
  case Nil
  then show ?case by (simp add: sameFields_def)
next
  case (Cons j js)
  obtain ns1 im1 where s: "depthStep j (ns, im) = (ns1, im1)" by (cases "depthStep j (ns, im)")
  have a: "sameFields ns ns1"
    using s by (cases "j < length ns") (auto simp: depthStep_def sameFields_def nth_list_update)
  have b: "sameFields ns1 (fst (fold depthStep js (ns1, im1)))" by (rule Cons.IH)
  from a b show ?case by (simp add: s sameFields_def)
qed

lemma addMaxDepthToNodes_fields: "sameFields ns (addMaxDepthToNodes ns)"
  by (simp add: addMaxDepthToNodes_fold depthStep_fold_fields)


lemma extractIntersection_length [simp]:
  "length (extractIntersection nodes li) = Suc (length nodes)"
  by (simp add: extractIntersection_def)

lemma extractIntersection_nth:
  "k < length nodes \<Longrightarrow> extractIntersection nodes li ! k =
     (if list_all (\<lambda>e. e \<in> set (rest (nodes ! k))) li
      then (nodes ! k)\<lparr>rest := filter (\<lambda>el. el \<notin> set li) (rest (nodes ! k)),
                       importsOf := importsOf (nodes ! k) @ [length nodes]\<rparr>
      else nodes ! k)"
  by (simp add: extractIntersection_def nth_append)

lemma extractIntersection_last:
  "extractIntersection nodes li ! length nodes =
     \<lparr>collection = li, rest = li, importsOf = [], depth = Num 1\<rparr>"
  by (simp add: extractIntersection_def nth_append)

lemma rootsKept_extract:
  assumes "rootsKept srt arrays ns"
  shows "rootsKept srt arrays (extractIntersection ns li)"
proof -
  have "collection (extractIntersection ns li ! k) = arrays ! k
        \<and> (\<exists>P. rest (extractIntersection ns li ! k) = filter P (sortedCopy srt (arrays ! k)))"
    if k: "k < length arrays" for k
  proof -
    from assms k have kn: "k < length ns" and c: "collection (ns ! k) = arrays ! k"
      by (auto simp: rootsKept_def)
    from assms k obtain P where P: "rest (ns ! k) = filter P (sortedCopy srt (arrays ! k))"
      by (auto simp: rootsKept_def)
    show ?thesis
    proof (cases "list_all (\<lambda>e. e \<in> set (rest (ns ! k))) li")
      case True
      then have "rest (extractIntersection ns li ! k)
            = filter (\<lambda>x. P x \<and> x \<notin> set li) (sortedCopy srt (arrays ! k))"
        using kn P by (simp add: extractIntersection_nth)
      then show ?thesis using True kn c by (auto simp: extractIntersection_nth)
    next
      case False
      then show ?thesis using kn c P by (auto simp: extractIntersection_nth)
    qed
  qed
  with assms show ?thesis by (simp add: rootsKept_def)
qed

lemma splitArrays_rootsKept:
  assumes "splitArrays srt arrays = Some nodes"
  shows "rootsKept srt arrays nodes"
proof -
  define ns0 where "ns0 = map (\<lambda>array. \<lparr>collection = array, rest = sortedCopy srt array,
                          importsOf = [], depth = Num 0\<rparr>) arrays"
  from assms obtain ns where w: "splitWhile (intersectionFunction srt) ns0 = Some ns"
    and n: "nodes = addMaxDepthToNodes ns"
    by (auto simp: splitArrays_def ns0_def)
  have i0: "rootsKept srt arrays ns0"
  proof -
    have "\<exists>P. sortedCopy srt a = filter P (sortedCopy srt a)" for a
      by (rule exI [of _ "\<lambda>x. True"]) simp
    then show ?thesis by (simp add: rootsKept_def ns0_def)
  qed
  have step: "rootsKept srt arrays ns'"
    if "rootsKept srt arrays ns1" "splitArrayNodes (intersectionFunction srt) ns1 = (l, ns')" for ns1 l ns'
    using splitArrayNodes_cases [OF that(2)] that(1) rootsKept_extract by auto
  have "rootsKept srt arrays ns"
    by (rule splitWhile_invariant [where I = "rootsKept srt arrays", OF w i0 step])
  moreover have "sameFields ns nodes" using n addMaxDepthToNodes_fields by simp
  ultimately show ?thesis
    by (auto simp: rootsKept_def sameFields_def)
qed


section \<open>The rest of a root node of the greedy splitter\<close>

subsection \<open>Sorted copies\<close>


















subsection \<open>The rest is the sorted copy without the extracted elements\<close>




section \<open>A call of the greedy splitter that never returns\<close>

lemma splitWhile_diverges:
  assumes "I nodes"
    and "\<And>ns. I ns \<Longrightarrow> 0 < fst (splitArrayNodes isect ns) \<and> I (snd (splitArrayNodes isect ns))"
  shows "splitWhile isect nodes = None"
proof (cases "splitWhile isect nodes")
  case None
  then show ?thesis .
next
  case (Some res)
  have "isect = isect \<longrightarrow> \<not> I nodes"
  proof (rule splitWhile.raw_induct [where P = "\<lambda>i n z. i = isect \<longrightarrow> \<not> I n", OF _ Some])
    fix rec i n z
    assume IH: "\<And>n' b y. rec n' b = Some y \<Longrightarrow> n' = isect \<longrightarrow> \<not> I b"
      and body: "(case splitArrayNodes i n of
         (longest, arrayNodes') \<Rightarrow> if 0 < longest then rec i arrayNodes' else Some arrayNodes') = Some z"
    show "i = isect \<longrightarrow> \<not> I n"
    proof (intro impI notI)
      assume e: "i = isect" and inv: "I n"
      obtain l ns' where s: "splitArrayNodes isect n = (l, ns')"
        by (cases "splitArrayNodes isect n")
      from assms(2) [OF inv] s have "0 < l" "I ns'" by simp_all
      with body s e have "rec isect ns' = Some z" by simp
      with IH [of isect ns' z] \<open>I ns'\<close> show False by simp
    qed
  qed
  with assms(1) show ?thesis by simp
qed

lemma fold_empty_rests:
  "\<forall>n \<in> set ns. rest n = [] \<Longrightarrow> fold (\<lambda>n m. fold g (rest n) m) ns m = m"
  by (induction ns) auto

lemma elementCount_loopState:
  "elementCount (loopState k) = [(1, 2), (30, 1), (2, 2)]"
  by (simp add: elementCount_def loopState_def fold_empty_rests)

lemma filter_mids:
  "filter (\<lambda>f. l < length (rest f))
     (map (\<lambda>i. \<lparr>collection = c i, rest = [], importsOf = m i, depth = d i\<rparr>) is) = []"
  by (induction "is") auto

lemma loopState_pass:
  "splitArrayNodes (getIntersectionFromArraysWithOrderingFunction tens) (loopState k)
     = (2, loopState (Suc k))"
proof -
  have ecm: "elementCountMap (elementCount (loopState k)) = [(2, [1, 2]), (1, [30])]"
    by (simp add: elementCount_loopState elementCountMap_def)
  have srt: "rev (sort (map fst [(2 :: nat, [1, 2 :: int]), (1, [30])])) = [2, 1]"
    by simp
  show ?thesis
    unfolding splitArrayNodes_def Let_def ecm srt
    apply (simp add: loopState_def Let_def filter_mids getLongestIntersection_def tens_def
        extractIntersection_def enumerate_eq_zip)
    done
qed

text \<open>
  C7 fails on the code. With the sorter function that compares the tens, the arrays
  \<open>[1, 1, 30]\<close> and \<open>[2, 2]\<close> make every pass of \<^verbatim>\<open>splitArrayNodes\<close> find the intersection
  \<open>[2, 2]\<close> (the sorter returns 0 on 2 and 1), extract it from the one node that holds it
  and append a node with the same rest: every pass returns 2, and the loop of
  \<^verbatim>\<open>splitArrays\<close> (and of \<^verbatim>\<open>splitSets\<close>) never ends.
\<close>

theorem splitArrays_sorter_never_returns:
  "splitArrays (Sorter tens) [[1, 1, 30], [2, 2]] = None
   \<and> (\<forall>k. splitArrayNodes (intersectionFunction (Sorter tens)) (loopState k) = (2, loopState (Suc k)))"
proof -
  have start: "map (\<lambda>array. \<lparr>collection = array, rest = sortedCopy (Sorter tens) array,
                          importsOf = [], depth = Num 0\<rparr>) [[1, 1, 30], [2, 2]] = loopState 0"
    by (simp add: loopState_def sort_with_def tens_def)
  have "splitWhile (getIntersectionFromArraysWithOrderingFunction tens) (loopState 0) = None"
  proof (rule splitWhile_diverges [where I = "\<lambda>ns. \<exists>k. ns = loopState k"])
    show "\<exists>k. loopState 0 = loopState k" by blast
  next
    fix ns :: "int node list"
    assume "\<exists>k. ns = loopState k"
    then obtain k where "ns = loopState k" by blast
    then show "0 < fst (splitArrayNodes (getIntersectionFromArraysWithOrderingFunction tens) ns)
         \<and> (\<exists>k. snd (splitArrayNodes (getIntersectionFromArraysWithOrderingFunction tens) ns) = loopState k)"
      by (auto simp: loopState_pass)
  qed
  then show ?thesis
    unfolding splitArrays_def start by (simp add: loopState_pass)
qed

section \<open>The structure of the node array of the greedy splitter\<close>

lemma forwardImportsD:
  "forwardImports ns \<Longrightarrow> k < length ns \<Longrightarrow> j \<in> set (importsOf (ns ! k)) \<Longrightarrow> k < j \<and> j < length ns"
  unfolding forwardImports_def by blast

lemma locallyCompleteD:
  "locallyComplete ns \<Longrightarrow> k < length ns \<Longrightarrow>
     set (collection (ns ! k)) = set (rest (ns ! k)) \<union> (\<Union>j \<in> set (importsOf (ns ! k)). set (collection (ns ! j)))"
  by (simp add: locallyComplete_def)




lemma forwardImports_acyclic:
  assumes "forwardImports ns"
  shows "acyclic (importRelation ns)"
proof (rule acyclicI, intro allI notI)
  fix x assume "(x, x) \<in> (importRelation ns)\<^sup>+"
  moreover have "(a, b) \<in> (importRelation ns)\<^sup>+ \<Longrightarrow> a < b" for a b
  proof (induction rule: trancl.induct)
    case (r_into_trancl a b)
    then have "a < length ns" "b \<in> set (importsOf (ns ! a))"
      by (simp_all add: importRelation_def)
    from forwardImportsD [OF assms this] show ?case by simp
  next
    case (trancl_into_trancl a b c)
    from \<open>(b, c) \<in> importRelation ns\<close> have "b < length ns" "c \<in> set (importsOf (ns ! b))"
      by (simp_all add: importRelation_def)
    from forwardImportsD [OF assms this] have "b < c" by simp
    with \<open>a < b\<close> show ?case by simp
  qed
  ultimately show False by blast
qed

lemma ordered_subset: "set (getIntersectionFromOrderedArrays a b) \<subseteq> set a"
  by (induction a b rule: getIntersectionFromOrderedArrays.induct) auto

lemma sorter_subset: "set (getIntersectionFromArraysWithOrderingFunction f a b) \<subseteq> set a"
  by (induction f a b rule: getIntersectionFromArraysWithOrderingFunction.induct) (auto simp: Let_def)

lemma getIntersection_subset: "set (getIntersection a b) \<subseteq> set a"
  by (auto simp: getIntersection_def)

lemma intersectionFunction_subset: "set (intersectionFunction srt a b) \<subseteq> set a"
  by (cases srt) (simp_all add: ordered_subset sorter_subset getIntersection_subset)

lemma extract_fields:
  assumes "k < length ns"
  shows "collection (extractIntersection ns li ! k) = collection (ns ! k)"
    and "depth (extractIntersection ns li ! k) = depth (ns ! k)"
    and "set (importsOf (extractIntersection ns li ! k)) \<subseteq> insert (length ns) (set (importsOf (ns ! k)))"
    and "set (importsOf (ns ! k)) \<subseteq> set (importsOf (extractIntersection ns li ! k))"
  using assms by (auto simp: extractIntersection_nth)

lemma extract_forward:
  assumes "forwardImports ns"
  shows "forwardImports (extractIntersection ns li)"
  unfolding forwardImports_def
proof (intro allI impI ballI)
  fix k j
  assume k: "k < length (extractIntersection ns li)"
    and j: "j \<in> set (importsOf (extractIntersection ns li ! k))"
  show "k < j \<and> j < length (extractIntersection ns li)"
  proof (cases "k < length ns")
    case True
    from extract_fields(3) [OF True, of li] j
    have "j = length ns \<or> j \<in> set (importsOf (ns ! k))" by blast
    then show ?thesis
    proof
      assume "j = length ns"
      with True show ?thesis by simp
    next
      assume "j \<in> set (importsOf (ns ! k))"
      from forwardImportsD [OF assms True this] show ?thesis by simp
    qed
  next
    case False
    with k have "k = length ns" by simp
    with j show ?thesis by (simp add: extractIntersection_last)
  qed
qed

lemma extract_complete:
  assumes f: "forwardImports ns" and c: "locallyComplete ns"
  shows "locallyComplete (extractIntersection ns li)"
  unfolding locallyComplete_def
proof (intro allI impI)
  fix k
  assume k: "k < length (extractIntersection ns li)"
  let ?e = "extractIntersection ns li"
  show "set (collection (?e ! k)) = set (rest (?e ! k)) \<union> (\<Union>j \<in> set (importsOf (?e ! k)). set (collection (?e ! j)))"
  proof (cases "k < length ns")
    case True
    have old: "set (collection (?e ! j)) = set (collection (ns ! j))" if "j \<in> set (importsOf (ns ! k))" for j
    proof -
      from forwardImportsD [OF f True that] have "j < length ns" by simp
      then show ?thesis by (simp add: extract_fields(1))
    qed
    have lc: "set (collection (ns ! k)) = set (rest (ns ! k)) \<union> (\<Union>j \<in> set (importsOf (ns ! k)). set (collection (ns ! j)))"
      by (rule locallyCompleteD [OF c True])
    show ?thesis
    proof (cases "list_all (\<lambda>e. e \<in> set (rest (ns ! k))) li")
      case upd: True
      then have sub: "set li \<subseteq> set (rest (ns ! k))" by (auto simp: list_all_iff)
      have ek: "?e ! k = (ns ! k)\<lparr>rest := filter (\<lambda>el. el \<notin> set li) (rest (ns ! k)),
                       importsOf := importsOf (ns ! k) @ [length ns]\<rparr>"
        using True upd by (simp add: extractIntersection_nth)
      have "(\<Union>j \<in> set (importsOf (?e ! k)). set (collection (?e ! j)))
          = (\<Union>j \<in> set (importsOf (ns ! k)). set (collection (ns ! j))) \<union> set li"
        using old by (auto simp: ek extractIntersection_last)
      moreover have "set (rest (?e ! k)) \<union> set li = set (rest (ns ! k))"
        using sub by (auto simp: ek)
      ultimately show ?thesis using lc by (auto simp: ek)
    next
      case False
      then have ek: "?e ! k = ns ! k" using True by (simp add: extractIntersection_nth)
      have "(\<Union>j \<in> set (importsOf (ns ! k)). set (collection (?e ! j)))
          = (\<Union>j \<in> set (importsOf (ns ! k)). set (collection (ns ! j)))"
        using old by simp
      with lc show ?thesis by (simp add: ek)
    qed
  next
    case False
    with k have "k = length ns" by simp
    then show ?thesis by (simp add: extractIntersection_last)
  qed
qed

lemma extract_greedyInv:
  assumes inv: "greedyInv n0 ns" and n: "n \<in> set ns" and sub: "set li \<subseteq> set (rest n)"
  shows "greedyInv n0 (extractIntersection ns li)"
proof -
  let ?e = "extractIntersection ns li"
  from inv have len: "n0 \<le> length ns" and f: "forwardImports ns" and c: "locallyComplete ns"
    and roots: "\<And>k. k < n0 \<Longrightarrow> depth (ns ! k) = Num 0"
    and gen: "\<And>j. n0 \<le> j \<Longrightarrow> j < length ns \<Longrightarrow>
            depth (ns ! j) = Num 1 \<and> (\<exists>k < j. j \<in> set (importsOf (ns ! k)))"
    and low: "\<And>k j. k < length ns \<Longrightarrow> j \<in> set (importsOf (ns ! k)) \<Longrightarrow> n0 \<le> j"
    unfolding greedyInv_def by blast+
  have a: "\<forall>k < n0. depth (?e ! k) = Num 0"
  proof (intro allI impI)
    fix k assume "k < n0"
    with len roots show "depth (?e ! k) = Num 0" by (simp add: extract_fields(2))
  qed
  have b: "\<forall>j. n0 \<le> j \<and> j < length ?e \<longrightarrow>
            depth (?e ! j) = Num 1 \<and> (\<exists>k < j. j \<in> set (importsOf (?e ! k)))"
  proof (intro allI impI)
    fix j assume j: "n0 \<le> j \<and> j < length ?e"
    show "depth (?e ! j) = Num 1 \<and> (\<exists>k < j. j \<in> set (importsOf (?e ! k)))"
    proof (cases "j < length ns")
      case True
      with gen j obtain k where k: "depth (ns ! j) = Num 1" "k < j" "j \<in> set (importsOf (ns ! k))"
        by blast
      from k(2) True have "k < length ns" by simp
      from extract_fields(4) [OF this, of li] k(3) have "j \<in> set (importsOf (?e ! k))" by blast
      with k True show ?thesis by (auto simp: extract_fields(2))
    next
      case False
      with j have jl: "j = length ns" by simp
      from n obtain k where k: "k < length ns" "ns ! k = n" by (auto simp: in_set_conv_nth)
      with sub have "list_all (\<lambda>e. e \<in> set (rest (ns ! k))) li" by (auto simp: list_all_iff)
      with k have "length ns \<in> set (importsOf (?e ! k))" by (simp add: extractIntersection_nth)
      with k jl show ?thesis by (auto simp: extractIntersection_last)
    qed
  qed
  have d: "\<forall>k < length ?e. \<forall>j \<in> set (importsOf (?e ! k)). n0 \<le> j"
  proof (intro allI impI ballI)
    fix k j assume k: "k < length ?e" and j: "j \<in> set (importsOf (?e ! k))"
    show "n0 \<le> j"
    proof (cases "k < length ns")
      case True
      from extract_fields(3) [OF True, of li] j
      have "j = length ns \<or> j \<in> set (importsOf (ns ! k))" by blast
      with len low [OF True] show ?thesis by blast
    next
      case False
      with k have "k = length ns" by simp
      with j show ?thesis by (simp add: extractIntersection_last)
    qed
  qed
  from len have "n0 \<le> length ?e" by simp
  with extract_forward [OF f] extract_complete [OF f c] a b d show ?thesis
    unfolding greedyInv_def by blast
qed

lemma splitArrayNodes_greedyInv:
  assumes "greedyInv n0 ns" "splitArrayNodes (intersectionFunction srt) ns = (l, ns')"
  shows "greedyInv n0 ns'"
proof -
  from splitArrayNodes_cases [OF assms(2)]
  consider "l = 0 \<and> ns' = ns"
    | li n S a where "ns' = extractIntersection ns li" "n \<in> set ns"
        "li = intersectionFunction srt (filter (\<lambda>e. e \<notin> S) (rest n)) a"
    by blast
  then show ?thesis
  proof cases
    case 1
    with assms(1) show ?thesis by simp
  next
    case 2
    have "set li \<subseteq> set (filter (\<lambda>e. e \<notin> S) (rest n))"
      unfolding 2(3) by (rule intersectionFunction_subset)
    then have "set li \<subseteq> set (rest n)" by auto
    from extract_greedyInv [OF assms(1) 2(2) this] 2(1) show ?thesis by simp
  qed
qed

lemma fold_js_max2_Num:
  assumes "\<forall>x \<in> set xs. \<exists>d. x = Num d"
  shows "\<exists>b. fold js_max2 xs (Num a) = Num b \<and> a \<le> b \<and> (\<forall>d. Num d \<in> set xs \<longrightarrow> d \<le> b)"
  using assms
proof (induction xs arbitrary: a)
  case Nil
  then show ?case by simp
next
  case (Cons x xs)
  then obtain d where x: "x = Num d" by auto
  from Cons.prems have "\<forall>x \<in> set xs. \<exists>d. x = Num d" by simp
  from Cons.IH [OF this, of "max d a"] obtain b where
    b: "fold js_max2 xs (Num (max d a)) = Num b" "max d a \<le> b" "\<forall>d. Num d \<in> set xs \<longrightarrow> d \<le> b"
    by blast
  show ?case
  proof (intro exI [of _ b] conjI allI impI)
    show "fold js_max2 (x # xs) (Num a) = Num b" using b(1) x by simp
    show "a \<le> b" using b(2) by simp
    fix e assume "Num e \<in> set (x # xs)"
    then have "e = d \<or> Num e \<in> set xs" using x by auto
    then show "e \<le> b" using b(2,3) by auto
  qed
qed

lemma js_max_Nums:
  assumes "xs \<noteq> []" "\<forall>x \<in> set xs. \<exists>d. x = Num d"
  shows "\<exists>b. js_max xs = Num b \<and> (\<forall>d. Num d \<in> set xs \<longrightarrow> d \<le> b)"
proof -
  from assms obtain x xs' where xs: "xs = x # xs'" by (cases xs) auto
  with assms obtain d where x: "x = Num d" by auto
  from assms xs have "\<forall>x \<in> set xs'. \<exists>d. x = Num d" by simp
  from fold_js_max2_Num [OF this, of d] obtain b where
    b: "fold js_max2 xs' (Num d) = Num b" "d \<le> b" "\<forall>e. Num e \<in> set xs' \<longrightarrow> e \<le> b"
    by blast
  show ?thesis
  proof (intro exI [of _ b] conjI allI impI)
    show "js_max xs = Num b" using b(1) by (simp add: js_max_def xs x)
    fix e assume "Num e \<in> set xs"
    then have "e = d \<or> Num e \<in> set xs'" using xs x by auto
    then show "e \<le> b" using b(2,3) by auto
  qed
qed

lemma depth_pass_step:
  assumes inv: "greedyInv n0 ns" and m: "n0 \<le> m" "m < length ns"
    and da: "depthsAssigned n0 m ns nsm"
  shows "\<exists>nsm'. depthStep m (nsm, [0..<m]) = (nsm', [0..<Suc m]) \<and> depthsAssigned n0 (Suc m) ns nsm'"
proof -
  from inv have f: "forwardImports ns"
    and gen: "\<And>j. n0 \<le> j \<Longrightarrow> j < length ns \<Longrightarrow> \<exists>k < j. j \<in> set (importsOf (ns ! k))"
    unfolding greedyInv_def by blast+
  from da have sf: "length nsm = length ns"
    and imp: "\<And>k. k < length ns \<Longrightarrow> importsOf (nsm ! k) = importsOf (ns ! k)"
    and col: "\<And>k. k < length ns \<Longrightarrow> collection (nsm ! k) = collection (ns ! k)"
    and rst: "\<And>k. k < length ns \<Longrightarrow> rest (nsm ! k) = rest (ns ! k)"
    and later: "\<And>i. m \<le> i \<Longrightarrow> i < length ns \<Longrightarrow> depth (nsm ! i) = depth (ns ! i)"
    and roots: "\<And>k. k < n0 \<Longrightarrow> depth (nsm ! k) = Num 0"
    and assigned: "\<And>j. n0 \<le> j \<Longrightarrow> j < m \<Longrightarrow> \<exists>b. depth (nsm ! j) = Num b \<and> 1 \<le> b"
    and edges: "\<And>k j. k < length ns \<Longrightarrow> j \<in> set (importsOf (ns ! k)) \<Longrightarrow> j < m \<Longrightarrow>
           \<exists>a b. depth (nsm ! k) = Num a \<and> depth (nsm ! j) = Num b \<and> a + 1 \<le> b"
    unfolding depthsAssigned_def sameFields_def by blast+
  have num: "\<exists>d. depth (nsm ! i) = Num d \<and> 0 \<le> d" if "i < m" for i
  proof (cases "i < n0")
    case True
    with roots show ?thesis by simp
  next
    case False
    with assigned [of i] that obtain b where "depth (nsm ! i) = Num b" "1 \<le> b" by auto
    then show ?thesis by (intro exI [of _ b]) simp
  qed
  define L where "L = filter (\<lambda>i. m \<in> set (importsOf (nsm ! i))) [0..<m]"
  define D where "D = js_plus1 (js_max (map (\<lambda>i. depth (nsm ! i)) L))"
  define nsm' where "nsm' = nsm[m := (nsm ! m)\<lparr>depth := D\<rparr>]"
  have step: "depthStep m (nsm, [0..<m]) = (nsm', [0..<Suc m])"
    by (simp add: depthStep_def nsm'_def D_def L_def)
  have inL: "k \<in> set L \<longleftrightarrow> k < m \<and> m \<in> set (importsOf (ns ! k))" for k
    using m imp [of k] by (auto simp: L_def)
  from gen [OF m] obtain k0 where "k0 < m" "m \<in> set (importsOf (ns ! k0))" by blast
  then have "k0 \<in> set L" by (simp add: inL)
  then have ne: "map (\<lambda>i. depth (nsm ! i)) L \<noteq> []" by auto
  have nums: "\<forall>x \<in> set (map (\<lambda>i. depth (nsm ! i)) L). \<exists>d. x = Num d"
  proof
    fix x assume "x \<in> set (map (\<lambda>i. depth (nsm ! i)) L)"
    then obtain i where "i \<in> set L" "x = depth (nsm ! i)" by auto
    with inL num [of i] show "\<exists>d. x = Num d" by auto
  qed
  from js_max_Nums [OF ne nums] obtain b where
    b: "js_max (map (\<lambda>i. depth (nsm ! i)) L) = Num b"
       "\<forall>d. Num d \<in> set (map (\<lambda>i. depth (nsm ! i)) L) \<longrightarrow> d \<le> b"
    by blast
  have D: "D = Num (b + 1)" by (simp add: D_def b(1))
  from num [OF \<open>k0 < m\<close>] obtain d0 where d0: "depth (nsm ! k0) = Num d0" "0 \<le> d0" by blast
  have "Num d0 \<in> set (map (\<lambda>i. depth (nsm ! i)) L)"
    using \<open>k0 \<in> set L\<close> d0(1) by (auto simp: image_iff intro: bexI [of _ k0])
  with b(2) d0(2) have b0: "0 \<le> b" by force
  have lenm: "m < length nsm" using m sf by simp
  have at_m: "nsm' ! m = (nsm ! m)\<lparr>depth := D\<rparr>"
    using lenm by (simp add: nsm'_def)
  have other: "nsm' ! i = nsm ! i" if "i \<noteq> m" for i
    using that by (simp add: nsm'_def)
  have dep: "depth (nsm' ! i) = (if i = m then Num (b + 1) else depth (nsm ! i))" for i
    using at_m other [of i] D by simp
  have sf': "sameFields ns nsm'"
    unfolding sameFields_def
  proof (intro conjI allI impI)
    show "length nsm' = length ns" using sf by (simp add: nsm'_def)
    fix k assume k: "k < length ns"
    show "collection (nsm' ! k) = collection (ns ! k)"
      using col [OF k] at_m other [of k] by (cases "k = m") simp_all
    show "rest (nsm' ! k) = rest (ns ! k)"
      using rst [OF k] at_m other [of k] by (cases "k = m") simp_all
    show "importsOf (nsm' ! k) = importsOf (ns ! k)"
      using imp [OF k] at_m other [of k] by (cases "k = m") simp_all
  qed
  have p2: "\<forall>i. Suc m \<le> i \<and> i < length ns \<longrightarrow> depth (nsm' ! i) = depth (ns ! i)"
    using later by (simp add: dep)
  have p3: "\<forall>k < n0. depth (nsm' ! k) = Num 0"
    using roots m by (simp add: dep)
  have p4: "\<forall>j. n0 \<le> j \<and> j < Suc m \<longrightarrow> (\<exists>b. depth (nsm' ! j) = Num b \<and> 1 \<le> b)"
  proof (intro allI impI)
    fix j assume j: "n0 \<le> j \<and> j < Suc m"
    show "\<exists>b. depth (nsm' ! j) = Num b \<and> 1 \<le> b"
    proof (cases "j = m")
      case True
      with b0 show ?thesis by (intro exI [of _ "b + 1"]) (simp add: dep)
    next
      case False
      with j assigned [of j] show ?thesis by (simp add: dep)
    qed
  qed
  have p5: "\<forall>k j. k < length ns \<longrightarrow> j \<in> set (importsOf (ns ! k)) \<longrightarrow> j < Suc m \<longrightarrow>
           (\<exists>a b. depth (nsm' ! k) = Num a \<and> depth (nsm' ! j) = Num b \<and> a + 1 \<le> b)"
  proof (intro allI impI)
    fix k j assume k: "k < length ns" and j: "j \<in> set (importsOf (ns ! k))" and jm: "j < Suc m"
    from forwardImportsD [OF f k j] have kj: "k < j" by simp
    show "\<exists>a b. depth (nsm' ! k) = Num a \<and> depth (nsm' ! j) = Num b \<and> a + 1 \<le> b"
    proof (cases "j = m")
      case True
      with kj j have "k \<in> set L" by (simp add: inL)
      from kj True num [of k] obtain a where a: "depth (nsm ! k) = Num a" by auto
      with \<open>k \<in> set L\<close> have "Num a \<in> set (map (\<lambda>i. depth (nsm ! i)) L)"
        by (auto simp: image_iff intro: bexI [of _ k])
      with b(2) have "a \<le> b" by blast
      with a kj True show ?thesis
        by (intro exI [of _ a] exI [of _ "b + 1"]) (simp add: dep)
    next
      case False
      with jm have "j < m" by simp
      from edges [OF k j this] obtain a c where
        "depth (nsm ! k) = Num a" "depth (nsm ! j) = Num c" "a + 1 \<le> c" by blast
      with kj \<open>j < m\<close> show ?thesis
        by (intro exI [of _ a] exI [of _ c]) (simp add: dep)
    qed
  qed
  from sf' p2 p3 p4 p5 have "depthsAssigned n0 (Suc m) ns nsm'"
    unfolding depthsAssigned_def by blast
  with step show ?thesis by blast
qed

lemma depthsAssigned_base:
  assumes inv: "greedyInv n0 ns"
  shows "depthsAssigned n0 n0 ns ns"
proof -
  from inv have roots: "\<forall>k < n0. depth (ns ! k) = Num 0"
    and low: "\<And>k j. k < length ns \<Longrightarrow> j \<in> set (importsOf (ns ! k)) \<Longrightarrow> n0 \<le> j"
    unfolding greedyInv_def by blast+
  have "\<forall>k j. k < length ns \<longrightarrow> j \<in> set (importsOf (ns ! k)) \<longrightarrow> j < n0 \<longrightarrow>
           (\<exists>a b. depth (ns ! k) = Num a \<and> depth (ns ! j) = Num b \<and> a + 1 \<le> b)"
  proof (intro allI impI)
    fix k j assume "k < length ns" "j \<in> set (importsOf (ns ! k))" "j < n0"
    with low [of k j] have False by simp
    then show "\<exists>a b. depth (ns ! k) = Num a \<and> depth (ns ! j) = Num b \<and> a + 1 \<le> b" ..
  qed
  moreover have "sameFields ns ns" by (simp add: sameFields_def)
  moreover have "\<forall>j. n0 \<le> j \<and> j < n0 \<longrightarrow> (\<exists>b. depth (ns ! j) = Num b \<and> 1 \<le> b)" by auto
  ultimately show ?thesis
    using roots unfolding depthsAssigned_def by blast
qed

lemma depth_pass_upto:
  assumes inv: "greedyInv n0 ns"
  shows "n0 \<le> m \<Longrightarrow> m \<le> length ns \<Longrightarrow>
     \<exists>nsm. fold depthStep [n0..<m] (ns, [0..<n0]) = (nsm, [0..<m]) \<and> depthsAssigned n0 m ns nsm"
proof (induction m)
  case 0
  then have "n0 = 0" by simp
  with depthsAssigned_base [OF inv] show ?case by simp
next
  case (Suc m)
  show ?case
  proof (cases "n0 = Suc m")
    case True
    with depthsAssigned_base [OF inv] show ?thesis by simp
  next
    case False
    with Suc.prems have m: "n0 \<le> m" "m < length ns" by simp_all
    with Suc.IH obtain nsm where
      nsm: "fold depthStep [n0..<m] (ns, [0..<n0]) = (nsm, [0..<m])" "depthsAssigned n0 m ns nsm"
      by auto
    from depth_pass_step [OF inv m nsm(2)] obtain nsm' where
      "depthStep m (nsm, [0..<m]) = (nsm', [0..<Suc m])" "depthsAssigned n0 (Suc m) ns nsm'"
      by blast
    with nsm(1) m show ?thesis
      by (intro exI [of _ nsm']) (simp add: upt_Suc_append)
  qed
qed

lemma greedy_positions:
  assumes inv: "greedyInv n0 ns"
  shows "filter (\<lambda>i. depth (ns ! i) \<noteq> Num 0) [0..<length ns] = [n0..<length ns]"
    and "filter (\<lambda>i. depth (ns ! i) = Num 0) [0..<length ns] = [0..<n0]"
proof -
  from inv have len: "n0 \<le> length ns"
    and roots: "\<And>k. k < n0 \<Longrightarrow> depth (ns ! k) = Num 0"
    and gen: "\<And>j. n0 \<le> j \<Longrightarrow> j < length ns \<Longrightarrow> depth (ns ! j) = Num 1"
    unfolding greedyInv_def by blast+
  have split: "[0..<length ns] = [0..<n0] @ [n0..<length ns]"
    using len by (metis le_add_diff_inverse upt_add_eq_append zero_le)
  have a: "filter (\<lambda>i. depth (ns ! i) \<noteq> Num 0) [0..<n0] = []"
    using roots by (simp add: filter_empty_conv)
  have b: "filter (\<lambda>i. depth (ns ! i) \<noteq> Num 0) [n0..<length ns] = [n0..<length ns]"
    using gen by (simp add: filter_id_conv)
  have c: "filter (\<lambda>i. depth (ns ! i) = Num 0) [0..<n0] = [0..<n0]"
    using roots by (simp add: filter_id_conv)
  have d: "filter (\<lambda>i. depth (ns ! i) = Num 0) [n0..<length ns] = []"
    using gen by (simp add: filter_empty_conv)
  show "filter (\<lambda>i. depth (ns ! i) \<noteq> Num 0) [0..<length ns] = [n0..<length ns]"
    by (subst split) (simp add: a b)
  show "filter (\<lambda>i. depth (ns ! i) = Num 0) [0..<length ns] = [0..<n0]"
    by (subst split) (simp add: c d)
qed

lemma addMaxDepthToNodes_depths:
  assumes inv: "greedyInv n0 ns"
  shows "depthsAssigned n0 (length ns) ns (addMaxDepthToNodes ns)"
proof -
  from inv have len: "n0 \<le> length ns" unfolding greedyInv_def by blast
  from depth_pass_upto [OF inv len le_refl] obtain nsm where
    "fold depthStep [n0..<length ns] (ns, [0..<n0]) = (nsm, [0..<length ns])"
    "depthsAssigned n0 (length ns) ns nsm" by blast
  then show ?thesis
    by (simp add: addMaxDepthToNodes_fold greedy_positions [OF inv])
qed

lemma sameFields_sameSets_forward:
  assumes "forwardImports ns" "length ns' = length ns"
    "\<And>k. k < length ns \<Longrightarrow> importsOf (ns' ! k) = importsOf (ns ! k)"
  shows "forwardImports ns'"
  unfolding forwardImports_def
proof (intro allI impI ballI)
  fix k j assume "k < length ns'" "j \<in> set (importsOf (ns' ! k))"
  with assms(2,3) have "k < length ns" "j \<in> set (importsOf (ns ! k))" by simp_all
  from forwardImportsD [OF assms(1) this] assms(2) show "k < j \<and> j < length ns'" by simp
qed

lemma sets_complete:
  assumes f: "forwardImports ns" and c: "locallyComplete ns" and l: "length ns' = length ns"
    and i: "\<And>k. k < length ns \<Longrightarrow> importsOf (ns' ! k) = importsOf (ns ! k)"
    and cs: "\<And>k. k < length ns \<Longrightarrow> set (collection (ns' ! k)) = set (collection (ns ! k))"
    and rs: "\<And>k. k < length ns \<Longrightarrow> set (rest (ns' ! k)) = set (rest (ns ! k))"
  shows "locallyComplete ns'"
  unfolding locallyComplete_def
proof (intro allI impI)
  fix k assume "k < length ns'"
  with l have k: "k < length ns" by simp
  have "set (collection (ns' ! j)) = set (collection (ns ! j))" if "j \<in> set (importsOf (ns ! k))" for j
  proof -
    from forwardImportsD [OF f k that] have "j < length ns" by simp
    then show ?thesis by (rule cs)
  qed
  then have "(\<Union>j \<in> set (importsOf (ns ! k)). set (collection (ns' ! j)))
      = (\<Union>j \<in> set (importsOf (ns ! k)). set (collection (ns ! j)))" by simp
  with locallyCompleteD [OF c k] cs [OF k] rs [OF k] i [OF k]
  show "set (collection (ns' ! k)) = set (rest (ns' ! k)) \<union> (\<Union>j \<in> set (importsOf (ns' ! k)). set (collection (ns' ! j)))"
    by simp
qed


lemma splitResult_wellFormedDag:
  assumes "splitResult n0 ns"
  shows "wellFormedDag ns"
proof -
  from assms have f: "forwardImports ns"
    and roots: "\<And>k. k < n0 \<Longrightarrow> depth (ns ! k) = Num 0"
    and gen: "\<And>j. n0 \<le> j \<Longrightarrow> j < length ns \<Longrightarrow> \<exists>k < j. j \<in> set (importsOf (ns ! k))"
    and edges: "\<And>k j. k < length ns \<Longrightarrow> j \<in> set (importsOf (ns ! k)) \<Longrightarrow>
           \<exists>a b. depth (ns ! k) = Num a \<and> depth (ns ! j) = Num b \<and> a + 1 \<le> b"
    unfolding splitResult_def by blast+
  have a: "acyclic (importRelation ns)" by (rule forwardImports_acyclic [OF f])
  have b: "\<forall>j < length ns. (\<forall>k < length ns. j \<notin> set (importsOf (ns ! k))) \<longrightarrow> depth (ns ! j) = Num 0"
  proof (intro allI impI)
    fix j assume j: "j < length ns" and un: "\<forall>k < length ns. j \<notin> set (importsOf (ns ! k))"
    show "depth (ns ! j) = Num 0"
    proof (cases "j < n0")
      case True
      then show ?thesis by (rule roots)
    next
      case False
      with gen [of j] j obtain k where "k < j" "j \<in> set (importsOf (ns ! k))" by auto
      with un j have False by auto
      then show ?thesis ..
    qed
  qed
  have c: "\<forall>k < length ns. \<forall>j \<in> set (importsOf (ns ! k)).
           j < length ns \<and> (\<exists>a b. depth (ns ! k) = Num a \<and> depth (ns ! j) = Num b \<and> a + 1 \<le> b)"
  proof (intro allI impI ballI conjI)
    fix k j assume k: "k < length ns" and j: "j \<in> set (importsOf (ns ! k))"
    from forwardImportsD [OF f k j] show "j < length ns" by simp
    from edges [OF k j] show "\<exists>a b. depth (ns ! k) = Num a \<and> depth (ns ! j) = Num b \<and> a + 1 \<le> b" .
  qed
  from a b c show ?thesis unfolding wellFormedDag_def by blast
qed


lemma splitResult_sameSets:
  assumes r: "splitResult n0 ns" and s: "sameSets ns ns'"
  shows "splitResult n0 ns'"
proof -
  from r have len: "n0 \<le> length ns" and f: "forwardImports ns" and c: "locallyComplete ns"
    and roots: "\<And>k. k < n0 \<Longrightarrow> depth (ns ! k) = Num 0"
    and gen: "\<And>j. n0 \<le> j \<Longrightarrow> j < length ns \<Longrightarrow> \<exists>k < j. j \<in> set (importsOf (ns ! k))"
    and edges: "\<And>k j. k < length ns \<Longrightarrow> j \<in> set (importsOf (ns ! k)) \<Longrightarrow>
           \<exists>a b. depth (ns ! k) = Num a \<and> depth (ns ! j) = Num b \<and> a + 1 \<le> b"
    unfolding splitResult_def by blast+
  from s have l: "length ns' = length ns"
    and i: "\<And>k. k < length ns \<Longrightarrow> importsOf (ns' ! k) = importsOf (ns ! k)"
    and cs: "\<And>k. k < length ns \<Longrightarrow> set (collection (ns' ! k)) = set (collection (ns ! k))"
    and rs: "\<And>k. k < length ns \<Longrightarrow> set (rest (ns' ! k)) = set (rest (ns ! k))"
    and d: "\<And>k. k < length ns \<Longrightarrow> depth (ns' ! k) = depth (ns ! k)"
    unfolding sameSets_def by blast+
  have f': "forwardImports ns'" by (rule sameFields_sameSets_forward [OF f l i])
  have c': "locallyComplete ns'" by (rule sets_complete [OF f c l i cs rs])
  have a: "\<forall>k < n0. depth (ns' ! k) = Num 0"
    using roots d len by simp
  have b: "\<forall>j. n0 \<le> j \<and> j < length ns' \<longrightarrow> (\<exists>k < j. j \<in> set (importsOf (ns' ! k)))"
  proof (intro allI impI)
    fix j assume j: "n0 \<le> j \<and> j < length ns'"
    with gen [of j] l obtain k where k: "k < j" "j \<in> set (importsOf (ns ! k))" by auto
    with j l i [of k] show "\<exists>k < j. j \<in> set (importsOf (ns' ! k))"
      by (intro exI [of _ k]) simp
  qed
  have e: "\<forall>k j. k < length ns' \<longrightarrow> j \<in> set (importsOf (ns' ! k)) \<longrightarrow>
           (\<exists>a b. depth (ns' ! k) = Num a \<and> depth (ns' ! j) = Num b \<and> a + 1 \<le> b)"
  proof (intro allI impI)
    fix k j assume "k < length ns'" "j \<in> set (importsOf (ns' ! k))"
    with l i [of k] have k: "k < length ns" and j: "j \<in> set (importsOf (ns ! k))" by simp_all
    from forwardImportsD [OF f k j] have jl: "j < length ns" by simp
    from edges [OF k j] d [OF k] d [OF jl]
    show "\<exists>a b. depth (ns' ! k) = Num a \<and> depth (ns' ! j) = Num b \<and> a + 1 \<le> b" by simp
  qed
  from len l have "n0 \<le> length ns'" by simp
  with f' c' a b e show ?thesis unfolding splitResult_def by blast
qed

lemma splitArrays_splitResult:
  assumes "splitArrays srt arrays = Some nodes"
  shows "splitResult (length arrays) nodes"
proof -
  define n0 where "n0 = length arrays"
  define ns0 where "ns0 = map (\<lambda>array. \<lparr>collection = array, rest = sortedCopy srt array,
                          importsOf = [], depth = Num 0\<rparr>) arrays"
  from assms obtain ns where w: "splitWhile (intersectionFunction srt) ns0 = Some ns"
    and n: "nodes = addMaxDepthToNodes ns"
    by (auto simp: splitArrays_def ns0_def)
  have i0: "greedyInv n0 ns0"
    unfolding greedyInv_def forwardImports_def locallyComplete_def
    by (simp add: ns0_def n0_def)
  have step: "greedyInv n0 ns'"
    if "greedyInv n0 ns1" "splitArrayNodes (intersectionFunction srt) ns1 = (l, ns')" for ns1 l ns'
    using that by (rule splitArrayNodes_greedyInv)
  have g: "greedyInv n0 ns"
    by (rule splitWhile_invariant [where I = "greedyInv n0", OF w i0 step])
  from addMaxDepthToNodes_depths [OF g] n have da: "depthsAssigned n0 (length ns) ns nodes" by simp
  from g have len: "n0 \<le> length ns" and f: "forwardImports ns" and c: "locallyComplete ns"
    and gen: "\<And>j. n0 \<le> j \<Longrightarrow> j < length ns \<Longrightarrow> \<exists>k < j. j \<in> set (importsOf (ns ! k))"
    unfolding greedyInv_def by blast+
  from da have l: "length nodes = length ns"
    and i: "\<And>k. k < length ns \<Longrightarrow> importsOf (nodes ! k) = importsOf (ns ! k)"
    and cs: "\<And>k. k < length ns \<Longrightarrow> collection (nodes ! k) = collection (ns ! k)"
    and rs: "\<And>k. k < length ns \<Longrightarrow> rest (nodes ! k) = rest (ns ! k)"
    and roots: "\<forall>k < n0. depth (nodes ! k) = Num 0"
    and edges: "\<And>k j. k < length ns \<Longrightarrow> j \<in> set (importsOf (ns ! k)) \<Longrightarrow> j < length ns \<Longrightarrow>
           \<exists>a b. depth (nodes ! k) = Num a \<and> depth (nodes ! j) = Num b \<and> a + 1 \<le> b"
    unfolding depthsAssigned_def sameFields_def by blast+
  have f': "forwardImports nodes" by (rule sameFields_sameSets_forward [OF f l i])
  have c': "locallyComplete nodes"
    by (rule sets_complete [OF f c l i]) (simp_all add: cs rs)
  have b: "\<forall>j. n0 \<le> j \<and> j < length nodes \<longrightarrow> (\<exists>k < j. j \<in> set (importsOf (nodes ! k)))"
  proof (intro allI impI)
    fix j assume j: "n0 \<le> j \<and> j < length nodes"
    with gen [of j] l obtain k where k: "k < j" "j \<in> set (importsOf (ns ! k))" by auto
    with j l i [of k] show "\<exists>k < j. j \<in> set (importsOf (nodes ! k))"
      by (intro exI [of _ k]) simp
  qed
  have e: "\<forall>k j. k < length nodes \<longrightarrow> j \<in> set (importsOf (nodes ! k)) \<longrightarrow>
           (\<exists>a b. depth (nodes ! k) = Num a \<and> depth (nodes ! j) = Num b \<and> a + 1 \<le> b)"
  proof (intro allI impI)
    fix k j assume "k < length nodes" "j \<in> set (importsOf (nodes ! k))"
    with l i [of k] have k: "k < length ns" and j: "j \<in> set (importsOf (ns ! k))" by simp_all
    from forwardImportsD [OF f k j] have jl: "j < length ns" by simp
    from edges [OF k j jl]
    show "\<exists>a b. depth (nodes ! k) = Num a \<and> depth (nodes ! j) = Num b \<and> a + 1 \<le> b" .
  qed
  from len l have "n0 \<le> length nodes" by simp
  with f' c' roots b e show ?thesis unfolding splitResult_def n0_def by blast
qed

lemma mapArraysToSetNodes_sameSets:
  assumes "\<forall>k < length sets. k < length ns \<longrightarrow> collection (ns ! k) = sets ! k"
  shows "sameSets ns (mapArraysToSetNodes sets ns)"
  using assms
  by (auto simp: sameSets_def mapArraysToSetNodes_def nth_enumerate_eq)

lemma splitSets_structure:
  assumes "splitSets srt sets = Some nodes"
  shows "splitResult (length sets) nodes \<and> (\<forall>k < length sets. collection (nodes ! k) = sets ! k)"
proof -
  from assms obtain ns where a: "splitArrays srt sets = Some ns"
    and n: "nodes = mapArraysToSetNodes sets ns"
    by (auto simp: splitSets_def)
  from splitArrays_rootsKept [OF a] have len: "length sets \<le> length ns"
    and col: "\<forall>k < length sets. collection (ns ! k) = sets ! k"
    by (auto simp: rootsKept_def)
  then have "sameSets ns nodes"
    unfolding n by (intro mapArraysToSetNodes_sameSets) simp
  from splitResult_sameSets [OF splitArrays_splitResult [OF a] this]
  have "splitResult (length sets) nodes" .
  moreover have "\<forall>k < length sets. collection (nodes ! k) = sets ! k"
    using len by (auto simp: n mapArraysToSetNodes_def nth_enumerate_eq)
  ultimately show ?thesis by blast
qed

subsection \<open>The node array of the shallow splitter\<close>

lemma map_index_nth:
  "distinct ks \<Longrightarrow> p < length ks \<Longrightarrow> map_index (map (\<lambda>e. (e, f e)) ks) (ks ! p) = p"
proof (induction ks arbitrary: p)
  case Nil
  then show ?case by simp
next
  case (Cons k ks)
  show ?case
  proof (cases p)
    case 0
    then show ?thesis by simp
  next
    case (Suc q)
    with Cons.prems have "ks ! q \<noteq> k" "q < length ks" by auto
    with Cons Suc show ?thesis by simp
  qed
qed

lemma map_index_key:
  "e \<in> set ks \<Longrightarrow> ks ! map_index (map (\<lambda>e. (e, f e)) ks) e = e"
  by (induction ks) auto

lemma split_position:
  "n \<le> k \<Longrightarrow> k < n + (l::nat) \<Longrightarrow> \<exists>p. k = n + p \<and> p < l"
  by (rule exI [of _ "k - n"]) simp

lemma shallow_splitResult:
  "splitResult (length colls) (splitIntersectionsArrayShallow colls)
   \<and> (\<forall>k < length colls. collection (splitIntersectionsArrayShallow colls ! k) = colls ! k)"
proof -
  define n where "n = length colls"
  define M where "M = multipleArrayElements colls"
  define keys where "keys = js_new_set M"
  define m where "m = map (\<lambda>e. (e, singletonNode e)) keys"
  define root where "root = (\<lambda>s. \<lparr>collection = s, rest = filter (\<lambda>e. e \<notin> set M) s,
       importsOf = map (\<lambda>e. n + map_index m e) (filter (\<lambda>e. e \<in> set M) s),
       depth = Num 0\<rparr>)"
  define nodes where "nodes = splitIntersectionsArrayShallow colls"
  have nodes: "nodes = map root colls @ map singletonNode keys"
    unfolding nodes_def shallow_array_form
    by (simp add: root_def M_def keys_def m_def n_def)
  have len: "length nodes = n + length keys" by (simp add: nodes n_def)
  have r: "nodes ! k = root (colls ! k)" if "k < n" for k
    using that by (simp add: nodes nth_append n_def)
  have g: "nodes ! (n + p) = singletonNode (keys ! p)" if "p < length keys" for p
    using that by (simp add: nodes nth_append n_def)
  have idx: "map_index m e < length keys \<and> keys ! map_index m e = e" if "e \<in> set M" for e
  proof -
    from that have "e \<in> set keys" by (simp add: keys_def)
    with map_index_keyed [of e keys singletonNode] map_index_key [of e keys singletonNode]
    show ?thesis unfolding m_def by blast
  qed
  have imp_root: "set (importsOf (nodes ! k)) = (\<lambda>e. n + map_index m e) ` {e \<in> set (colls ! k). e \<in> set M}"
    if "k < n" for k
    using that by (auto simp: r root_def)
  have imp_gen: "importsOf (nodes ! k) = []" if "n \<le> k" "k < length nodes" for k
  proof -
    from that len split_position [of n k "length keys"] obtain p where "k = n + p" "p < length keys"
      by auto
    with g show ?thesis by (simp add: singletonNode_def)
  qed
  have f: "forwardImports nodes"
    unfolding forwardImports_def
  proof (intro allI impI ballI)
    fix k j assume k: "k < length nodes" and j: "j \<in> set (importsOf (nodes ! k))"
    show "k < j \<and> j < length nodes"
    proof (cases "k < n")
      case True
      with j imp_root obtain e where "e \<in> set M" "j = n + map_index m e" by auto
      with idx [of e] True len show ?thesis by simp
    next
      case False
      with imp_gen [of k] k j show ?thesis by simp
    qed
  qed
  have c: "locallyComplete nodes"
    unfolding locallyComplete_def
  proof (intro allI impI)
    fix k assume k: "k < length nodes"
    show "set (collection (nodes ! k)) =
        set (rest (nodes ! k)) \<union> (\<Union>j \<in> set (importsOf (nodes ! k)). set (collection (nodes ! j)))"
    proof (cases "k < n")
      case True
      have "set (collection (nodes ! (n + map_index m e))) = {e}" if "e \<in> set M" for e
        using idx [OF that] g [of "map_index m e"] by (simp add: singletonNode_def)
      then have "(\<Union>j \<in> set (importsOf (nodes ! k)). set (collection (nodes ! j)))
          = {e \<in> set (colls ! k). e \<in> set M}"
        by (auto simp: imp_root [OF True])
      then show ?thesis using True by (auto simp: r root_def)
    next
      case False
      with k len obtain p where p: "k = n + p" "p < length keys"
        by (metis add_diff_inverse_nat add_less_cancel_left not_less)
      with g show ?thesis by (simp add: singletonNode_def)
    qed
  qed
  have roots: "\<forall>k < n. depth (nodes ! k) = Num 0"
    by (simp add: r root_def)
  have gen: "\<forall>j. n \<le> j \<and> j < length nodes \<longrightarrow> (\<exists>k < j. j \<in> set (importsOf (nodes ! k)))"
  proof (intro allI impI)
    fix j assume j: "n \<le> j \<and> j < length nodes"
    with len split_position [of n j "length keys"] obtain p where p: "j = n + p" "p < length keys"
      by auto
    define e where "e = keys ! p"
    from p have ek: "e \<in> set keys" by (simp add: e_def)
    then have eM: "e \<in> set M" by (simp add: keys_def)
    then have "2 \<le> count_list (concat colls) e"
      using multipleArrayElements_set [of colls] by (simp add: M_def)
    then have "e \<in> set (concat colls)"
      using count_list_0_iff [of "concat colls" e] by auto
    then obtain s where "s \<in> set colls" "e \<in> set s" by auto
    then obtain k where k: "k < n" "e \<in> set (colls ! k)"
      by (auto simp: in_set_conv_nth n_def)
    have "map_index m e = p"
      unfolding m_def e_def using p(2) by (intro map_index_nth) (simp_all add: keys_def)
    with k eM have "j \<in> set (importsOf (nodes ! k))"
      by (auto simp: imp_root p(1))
    with k j show "\<exists>k < j. j \<in> set (importsOf (nodes ! k))"
      by (intro exI [of _ k]) simp
  qed
  have edges: "\<forall>k j. k < length nodes \<longrightarrow> j \<in> set (importsOf (nodes ! k)) \<longrightarrow>
           (\<exists>a b. depth (nodes ! k) = Num a \<and> depth (nodes ! j) = Num b \<and> a + 1 \<le> b)"
  proof (intro allI impI)
    fix k j assume k: "k < length nodes" and j: "j \<in> set (importsOf (nodes ! k))"
    show "\<exists>a b. depth (nodes ! k) = Num a \<and> depth (nodes ! j) = Num b \<and> a + 1 \<le> b"
    proof (cases "k < n")
      case True
      with j imp_root obtain e where e: "e \<in> set M" "j = n + map_index m e" by auto
      with idx [OF e(1)] g [of "map_index m e"] have "depth (nodes ! j) = Num 1"
        by (simp add: singletonNode_def)
      moreover from True have "depth (nodes ! k) = Num 0" by (simp add: r root_def)
      ultimately show ?thesis by simp
    next
      case False
      with imp_gen [of k] k j show ?thesis by simp
    qed
  qed
  have "n \<le> length nodes" by (simp add: len)
  with f c roots gen edges have "splitResult n nodes"
    unfolding splitResult_def by blast
  moreover have "\<forall>k < n. collection (nodes ! k) = colls ! k"
    by (simp add: r root_def)
  ultimately show ?thesis by (simp add: nodes_def n_def)
qed

section \<open>The node array of the weighted splitter\<close>

subsection \<open>Association lists and loops\<close>

lemma map_get_in: "map_get m k = Some v \<Longrightarrow> (k, v) \<in> set m"
  by (induction m) (auto split: if_splits)

lemma map_delete_subset: "set (map_delete m k) \<subseteq> set m"
  by (auto simp: map_delete_def)

lemma map_set_in: "x \<in> set (map_set m k v) \<Longrightarrow> x \<in> set m \<or> x = (k, v)"
  by (induction m) (auto split: if_splits)

lemma map_set_nonempty: "map_set m k v \<noteq> []"
  by (cases m) (auto split: if_splits)

lemma forEachM_invariant:
  assumes "forEachM f xs s = Some s'" "I s"
    and "\<And>x t t'. x \<in> set xs \<Longrightarrow> I t \<Longrightarrow> f x t = Some t' \<Longrightarrow> I t'"
  shows "I s'"
  using assms
proof (induction xs arbitrary: s)
  case Nil
  then show ?case by simp
next
  case (Cons x xs)
  from Cons.prems(1) obtain t where t: "f x s = Some t" and r: "forEachM f xs t = Some s'"
    by (auto split: option.splits)
  from Cons.prems(3) [of x s t] t Cons.prems(2) have "I t" by simp
  show ?case
  proof (rule Cons.IH [OF r \<open>I t\<close>])
    fix y u u' assume "y \<in> set xs" "I u" "f y u = Some u'"
    with Cons.prems(3) [of y u u'] show "I u'" by simp
  qed
qed

lemma fold_invariant:
  assumes "I s" and "\<And>x t. x \<in> set xs \<Longrightarrow> I t \<Longrightarrow> I (f x t)"
  shows "I (fold f xs s)"
  using assms by (induction xs arbitrary: s) auto

subsection \<open>Sets as lists\<close>

lemma cloneSet_set [simp]: "set (cloneSet s) = set s"
proof -
  have "set (fold (\<lambda>entry newSet. set_add newSet entry) s acc) = set acc \<union> set s" for acc
    by (induction s arbitrary: acc) (auto simp: set_add_def)
  then show ?thesis by (simp add: cloneSet_def)
qed

lemma intersect_fold_set:
  "set (fold (\<lambda>element acc. if element \<in> B then set_add acc element else acc) s acc)
     = set acc \<union> (set s \<inter> B)"
  by (induction s arbitrary: acc) (auto simp: set_add_def)

lemma intersect_fold_distinct:
  "distinct acc \<Longrightarrow> distinct (fold (\<lambda>element acc. if element \<in> B then set_add acc element else acc) s acc)"
  by (induction s arbitrary: acc) (auto simp: set_add_def)

lemma intersectSets_set [simp]: "set (intersectSets a b) = set a \<inter> set b"
  by (auto simp: intersectSets_def intersect_fold_set)

lemma intersectSets_distinct [simp]: "distinct (intersectSets a b)"
  by (simp add: intersectSets_def intersect_fold_distinct)

subsection \<open>The predicates on the maps\<close>

lemma pairsValidD:
  "pairsValid ns im \<Longrightarrow> (k, ps) \<in> set im \<Longrightarrow> (a, b) \<in> set ps \<Longrightarrow> a < length ns \<and> b < length ns"
  unfolding pairsValid_def by fastforce

lemma setsSoundD:
  "setsSound w ns ims \<Longrightarrow> (k, sm) \<in> set ims \<Longrightarrow>
     sm \<noteq> [] \<and> (\<forall>s \<in> fst ` set sm. s < length ns \<and> set (split w k) \<subseteq> set (collection (ns ! s)))"
  unfolding setsSound_def by fastforce

lemma pairsValidI:
  "(\<And>k ps a b. (k, ps) \<in> set im \<Longrightarrow> (a, b) \<in> set ps \<Longrightarrow> a < length ns \<and> b < length ns)
     \<Longrightarrow> pairsValid ns im"
  unfolding pairsValid_def by fastforce

lemma setsSoundI:
  "(\<And>k sm. (k, sm) \<in> set ims \<Longrightarrow>
     sm \<noteq> [] \<and> (\<forall>s \<in> fst ` set sm. s < length ns \<and> set (split w k) \<subseteq> set (collection (ns ! s))))
     \<Longrightarrow> setsSound w ns ims"
  unfolding setsSound_def by fastforce

lemma pairsValid_subset:
  "pairsValid ns im \<Longrightarrow> set im' \<subseteq> set im \<Longrightarrow> pairsValid ns im'"
  unfolding pairsValid_def by blast

lemma setsSound_subset:
  "setsSound w ns ims \<Longrightarrow> set ims' \<subseteq> set ims \<Longrightarrow> setsSound w ns ims'"
  unfolding setsSound_def by blast

lemma pairsValid_delete: "pairsValid ns im \<Longrightarrow> pairsValid ns (map_delete im k)"
  by (rule pairsValid_subset [OF _ map_delete_subset])

lemma setsSound_delete: "setsSound w ns ims \<Longrightarrow> setsSound w ns (map_delete ims k)"
  by (rule setsSound_subset [OF _ map_delete_subset])

lemma pairsValid_set:
  assumes "pairsValid ns im" "\<forall>p \<in> set ps. fst p < length ns \<and> snd p < length ns"
  shows "pairsValid ns (map_set im k ps)"
  unfolding pairsValid_def
proof
  fix kv assume "kv \<in> set (map_set im k ps)"
  from map_set_in [OF this] assms show "\<forall>p \<in> set (snd kv). fst p < length ns \<and> snd p < length ns"
    unfolding pairsValid_def by auto
qed

lemma setsSound_set:
  assumes "setsSound w ns ims" "sm \<noteq> []"
    "\<forall>s \<in> fst ` set sm. s < length ns \<and> set (split w k) \<subseteq> set (collection (ns ! s))"
  shows "setsSound w ns (map_set ims k sm)"
  unfolding setsSound_def
proof
  fix kv assume "kv \<in> set (map_set ims k sm)"
  from map_set_in [OF this] have "kv \<in> set ims \<or> kv = (k, sm)" .
  then show "snd kv \<noteq> [] \<and> (\<forall>s \<in> fst ` set (snd kv). s < length ns
          \<and> set (split w (fst kv)) \<subseteq> set (collection (ns ! s)))"
  proof
    assume "kv \<in> set ims"
    with assms(1) show ?thesis unfolding setsSound_def by blast
  next
    assume "kv = (k, sm)"
    with assms(2,3) show ?thesis by simp
  qed
qed

lemma pairsValid_mono:
  "pairsValid ns im \<Longrightarrow> length ns \<le> length ns' \<Longrightarrow> pairsValid ns' im"
  unfolding pairsValid_def by fastforce

lemma setsSound_mono:
  assumes "setsSound w ns ims" "length ns \<le> length ns'"
    "\<forall>k < length ns. collection (ns' ! k) = collection (ns ! k)"
  shows "setsSound w ns' ims"
  unfolding setsSound_def
proof (intro ballI conjI)
  fix kv assume kv: "kv \<in> set ims"
  with assms(1) show "snd kv \<noteq> []" unfolding setsSound_def by blast
  fix s assume s: "s \<in> fst ` set (snd kv)"
  with kv assms(1) have a: "s < length ns" "set (split w (fst kv)) \<subseteq> set (collection (ns ! s))"
    unfolding setsSound_def by blast+
  with assms(2,3) show "s < length ns'" "set (split w (fst kv)) \<subseteq> set (collection (ns' ! s))"
    by auto
qed

subsection \<open>Removing the extracted intersection from the maps\<close>

lemma map_get_key: "map_get m k = Some v \<Longrightarrow> k \<in> fst ` set m"
  using map_get_in [of m k v] by force

lemma map_set_keys_subset:
  assumes "x \<in> fst ` set (map_set m k v)"
  shows "x = k \<or> x \<in> fst ` set m"
proof -
  from assms obtain y where "y \<in> set (map_set m k v)" "x = fst y" by blast
  with map_set_in [of y m k v] have "y \<in> set m \<or> y = (k, v)" by simp
  with \<open>x = fst y\<close> show ?thesis by auto
qed

lemma map_set_keys_present:
  assumes "map_get m k = Some v" "x \<in> fst ` set (map_set m k v')"
  shows "x \<in> fst ` set m"
  using map_set_keys_subset [OF assms(2)] map_get_key [OF assms(1)] by blast

lemma map_delete_keys: "x \<in> fst ` set (map_delete m k) \<Longrightarrow> x \<in> fst ` set m"
  by (auto simp: map_delete_def)

lemma removeOther_cases:
  assumes "removeOtherAffectedSetFromMaps w ims key s wm s2k = Some (ims', wm', s2k')"
  shows "\<exists>setMap setMap'. map_get ims key = Some setMap
           \<and> fst ` set setMap' \<subseteq> fst ` set setMap
           \<and> ims' = (if length setMap' = 0 then map_delete ims key else map_set ims key setMap')"
proof -
  from assms obtain setMap r where g: "map_get ims key = Some setMap"
    and r: "(case map_get setMap s of
          Some (Suc (Suc c)) \<Rightarrow> Some (map_set setMap s (Suc c), wm, s2k)
        | _ \<Rightarrow> do {
            let intersectingElementsCount = int (length (split w key));
            let intersectingSetsCount = int (length setMap);
            let weight = primaryWeight w intersectingElementsCount intersectingSetsCount;
            weightMap1 \<leftarrow> removeFromSetOrDeleteFromMap wm weight key;
            let updatedWeight = primaryWeight w intersectingElementsCount (intersectingSetsCount - 1);
            let weightMap2 = (if intersectingSetsCount > 1
                              then addToSetOrCreateKeyInMap weightMap1 updatedWeight key
                              else weightMap1);
            setToKeyMap1 \<leftarrow> removeFromSetOrDeleteFromMap s2k s key;
            Some (map_delete setMap s, weightMap2, setToKeyMap1)
          }) = Some r"
    and i: "ims' = (if length (fst r) = 0 then map_delete ims key else map_set ims key (fst r))"
    unfolding removeOtherAffectedSetFromMaps_def
    by (auto simp: bind_eq_Some_conv split: prod.splits)
  have "fst r = map_delete setMap s \<or> (\<exists>c v. map_get setMap s = Some v \<and> fst r = map_set setMap s c)"
    using r by (auto simp: bind_eq_Some_conv Let_def split: option.splits nat.splits)
  then have "fst ` set (fst r) \<subseteq> fst ` set setMap"
  proof
    assume "fst r = map_delete setMap s"
    then show ?thesis using map_delete_keys [of _ setMap s] by (intro subsetI) simp
  next
    assume "\<exists>c v. map_get setMap s = Some v \<and> fst r = map_set setMap s c"
    then obtain c v where "map_get setMap s = Some v" "fst r = map_set setMap s c" by blast
    then show ?thesis using map_set_keys_present [of setMap s v _ c] by (intro subsetI) simp
  qed
  with g i show ?thesis
    by (intro exI [of _ setMap] exI [of _ "fst r"]) simp
qed

lemma removeOther_sound:
  assumes r: "removeOtherAffectedSetFromMaps w ims key s wm s2k = Some (ims', wm', s2k')"
    and s: "setsSound w ns ims"
  shows "setsSound w ns ims'"
proof -
  from removeOther_cases [OF r] obtain setMap setMap' where g: "map_get ims key = Some setMap"
    and k: "fst ` set setMap' \<subseteq> fst ` set setMap"
    and i: "ims' = (if length setMap' = 0 then map_delete ims key else map_set ims key setMap')"
    by blast
  show ?thesis
  proof (cases "setMap' = []")
    case True
    with i s show ?thesis by (simp add: setsSound_delete)
  next
    case False
    from setsSoundD [OF s map_get_in [OF g]] k
    have "\<forall>s \<in> fst ` set setMap'. s < length ns \<and> set (split w key) \<subseteq> set (collection (ns ! s))"
      by blast
    with False i s show ?thesis by (simp add: setsSound_set)
  qed
qed

lemma pairsIn_append: "pairsIn n (ps @ qs) = (pairsIn n ps \<and> pairsIn n qs)"
  unfolding pairsIn_def by auto

lemma pairsIn_single: "pairsIn n [(a, b)] = (a < n \<and> b < n)"
  unfolding pairsIn_def by simp

lemma pairsIn_Nil: "pairsIn n []"
  unfolding pairsIn_def by simp

lemma pairsValid_pairsIn:
  "pairsValid ns im \<Longrightarrow> map_get im k = Some ps \<Longrightarrow> pairsIn (length ns) ps"
  using map_get_in [of im k ps] unfolding pairsValid_def pairsIn_def by fastforce

lemma pairsValid_set_pairsIn:
  "pairsValid ns im \<Longrightarrow> pairsIn (length ns) ps \<Longrightarrow> pairsValid ns (map_set im k ps)"
  by (rule pairsValid_set) (simp_all add: pairsIn_def)

lemma removePairStep_inv:
  assumes r: "removePairStep w iSets oas key p t = Some t'"
    and p: "fst p < length ns \<and> snd p < length ns"
    and i: "setsSound w ns (fst t) \<and> pairsIn (length ns) (fst (snd (snd (snd t))))
          \<and> pairsIn (length ns) (snd (snd (snd (snd t))))"
  shows "setsSound w ns (fst t') \<and> pairsIn (length ns) (fst (snd (snd (snd t'))))
          \<and> pairsIn (length ns) (snd (snd (snd (snd t'))))"
proof -
  obtain set1 set2 where pp: "p = (set1, set2)" by (cases p)
  obtain ims wim s2i prs un where t: "t = (ims, wim, s2i, prs, un)" by (cases t)
  show ?thesis
  proof (cases "set1 \<in> set iSets \<or> set2 \<in> set iSets \<or> (set1 \<in> set oas \<and> set2 \<in> set oas)")
    case True
    with r pp t obtain ims1 wim1 s2i1 ims2 wim2 s2i2 where
      a: "removeOtherAffectedSetFromMaps w ims key set1 wim s2i = Some (ims1, wim1, s2i1)" and
      b: "removeOtherAffectedSetFromMaps w ims1 key set2 wim1 s2i1 = Some (ims2, wim2, s2i2)" and
      t': "t' = (ims2, wim2, s2i2, prs @ [(set1, set2)], un)"
      by (auto simp: bind_eq_Some_conv)
    from i t have "setsSound w ns ims" by simp
    from removeOther_sound [OF b removeOther_sound [OF a this]] have "setsSound w ns ims2" .
    with t' i t p pp show ?thesis by (simp add: pairsIn_append pairsIn_single)
  next
    case False
    with r pp t have "t' = (ims, wim, s2i, prs, un @ [(set1, set2)])" by auto
    with i t p pp show ?thesis by (simp add: pairsIn_append pairsIn_single)
  qed
qed

lemma removeIntersectionStep_inv:
  assumes r: "removeIntersectionStep w iSets oas key t = Some t'"
    and i: "pairsValid ns (fst t) \<and> setsSound w ns (fst (snd t))
          \<and> pairsIn (length ns) (snd (snd (snd (snd t))))"
  shows "pairsValid ns (fst t') \<and> setsSound w ns (fst (snd t'))
          \<and> pairsIn (length ns) (snd (snd (snd (snd t'))))"
proof -
  obtain im ims wim s2i prs where t: "t = (im, ims, wim, s2i, prs)" by (cases t)
  from r t obtain poss u where g: "map_get im key = Some poss"
    and f: "forEachM (removePairStep w iSets oas key) poss (ims, wim, s2i, prs, []) = Some u"
    and t': "t' = (if length (snd (snd (snd (snd u)))) > 0
                   then map_set im key (snd (snd (snd (snd u)))) else map_delete im key,
                   fst u, fst (snd u), fst (snd (snd u)), fst (snd (snd (snd u))))"
    by (auto simp: bind_eq_Some_conv split: prod.splits)
  from i t have pv: "pairsValid ns im" by simp
  from pairsValid_pairsIn [OF pv g] have poss: "pairsIn (length ns) poss" .
  have u: "setsSound w ns (fst u) \<and> pairsIn (length ns) (fst (snd (snd (snd u))))
          \<and> pairsIn (length ns) (snd (snd (snd (snd u))))"
  proof (rule forEachM_invariant [OF f])
    show "setsSound w ns (fst (ims, wim, s2i, prs, [])) \<and>
      pairsIn (length ns) (fst (snd (snd (snd (ims, wim, s2i, prs, []))))) \<and>
      pairsIn (length ns) (snd (snd (snd (snd (ims, wim, s2i, prs, [])))))"
      using i t by (simp add: pairsIn_Nil)
  next
    fix x a a'
    assume "x \<in> set poss"
      and "setsSound w ns (fst a) \<and> pairsIn (length ns) (fst (snd (snd (snd a))))
          \<and> pairsIn (length ns) (snd (snd (snd (snd a))))"
      and "removePairStep w iSets oas key x a = Some a'"
    with poss show "setsSound w ns (fst a') \<and> pairsIn (length ns) (fst (snd (snd (snd a'))))
          \<and> pairsIn (length ns) (snd (snd (snd (snd a'))))"
      by (intro removePairStep_inv [of w iSets oas key x a a' ns]) (simp_all add: pairsIn_def)
  qed
  from u pv have "pairsValid ns (fst t')"
    unfolding t' by (simp add: pairsValid_set_pairsIn pairsValid_delete)
  with u show ?thesis unfolding t' by simp
qed

lemma removeUpdatedFromMaps_inv:
  assumes r: "removeUpdatedFromMaps w hwi iSets oai oas st hw = Some (st1, prs)"
    and pv: "pairsValid (setNodes st) (intersectionMap st)"
    and ss: "setsSound w (setNodes st) (intersectionMapSet st)"
  shows "setNodes st1 = setNodes st \<and> pairsValid (setNodes st) (intersectionMap st1)
     \<and> setsSound w (setNodes st) (intersectionMapSet st1) \<and> pairsIn (length (setNodes st)) prs"
proof -
  define ns where "ns = setNodes st"
  from r obtain s2i0 wim0 u where
    f: "forEachM (removeIntersectionStep w iSets oas) oai
          (map_delete (intersectionMap st) hwi, map_delete (intersectionMapSet st) hwi, wim0, s2i0, [])
        = Some u"
    and st1: "st1 = st\<lparr>intersectionMap := fst u, intersectionMapSet := fst (snd u),
                 setToIntersectionMap := fst (snd (snd (snd u))),
                 weightIntersectionMap := fst (snd (snd u))\<rparr>"
    and prs: "prs = snd (snd (snd (snd u)))"
    unfolding removeUpdatedFromMaps_def
    by (auto simp: bind_eq_Some_conv Let_def split: prod.splits)
  have "pairsValid ns (fst u) \<and> setsSound w ns (fst (snd u))
          \<and> pairsIn (length ns) (snd (snd (snd (snd u))))"
  proof (rule forEachM_invariant [OF f])
    show "pairsValid ns (fst (map_delete (intersectionMap st) hwi,
             map_delete (intersectionMapSet st) hwi, wim0, s2i0, []))
        \<and> setsSound w ns (fst (snd (map_delete (intersectionMap st) hwi,
             map_delete (intersectionMapSet st) hwi, wim0, s2i0, [])))
        \<and> pairsIn (length ns) (snd (snd (snd (snd (map_delete (intersectionMap st) hwi,
             map_delete (intersectionMapSet st) hwi, wim0, s2i0, [])))))"
      using pv ss by (simp add: ns_def pairsValid_delete setsSound_delete pairsIn_Nil)
  next
    fix x a a'
    assume "x \<in> set oai"
      and "pairsValid ns (fst a) \<and> setsSound w ns (fst (snd a))
          \<and> pairsIn (length ns) (snd (snd (snd (snd a))))"
      and "removeIntersectionStep w iSets oas x a = Some a'"
    then show "pairsValid ns (fst a') \<and> setsSound w ns (fst (snd a'))
          \<and> pairsIn (length ns) (snd (snd (snd (snd a'))))"
      by (intro removeIntersectionStep_inv [of w iSets oas x a a' ns]) simp_all
  qed
  with st1 prs show ?thesis by (simp add: ns_def)
qed

lemma otherAffectedStep_inv:
  assumes r: "otherAffectedStep w iSets hwi ims x acc = Some acc'"
    and s: "setsSound w ns ims"
    and i: "\<forall>s \<in> set (snd acc). s < length ns"
  shows "\<forall>s \<in> set (snd acc'). s < length ns"
proof -
  obtain oai oas where acc: "acc = (oai, oas)" by (cases acc)
  show ?thesis
  proof (cases "list_ex (\<lambda>element. element \<in> set (split w hwi)) (split w x)")
    case True
    with r acc obtain mapSet where g: "map_get ims x = Some mapSet"
      and a: "snd acc' = fold (\<lambda>affectedSet oas.
                      if affectedSet \<notin> set iSets then set_add oas affectedSet else oas)
                (map fst mapSet) oas"
      by (auto simp: bind_eq_Some_conv)
    from setsSoundD [OF s map_get_in [OF g]] have m: "\<forall>s \<in> set (map fst mapSet). s < length ns"
      by simp
    have "\<forall>s \<in> set (fold (\<lambda>affectedSet oas.
                      if affectedSet \<notin> set iSets then set_add oas affectedSet else oas)
                (map fst mapSet) oas). s < length ns"
    proof (rule fold_invariant [where I = "\<lambda>oas. \<forall>s \<in> set oas. s < length ns"])
      from i acc show "\<forall>s \<in> set oas. s < length ns" by simp
    next
      fix y t assume "y \<in> set (map fst mapSet)" "\<forall>s \<in> set t. s < length ns"
      with m show "\<forall>s \<in> set (if y \<notin> set iSets then set_add t y else t). s < length ns"
        by (auto simp: set_add_def)
    qed
    with a show ?thesis by simp
  next
    case False
    with r acc i show ?thesis by auto
  qed
qed

lemma getOtherAffectedIntersections_valid:
  assumes r: "getOtherAffectedIntersections w iSets s2i hwi ims = Some (oai, oas)"
    and s: "setsSound w ns ims"
  shows "\<forall>s \<in> set oas. s < length ns"
proof -
  from r obtain u where
    f: "forEachM (\<lambda>s acc. do {
           affectedIntersections \<leftarrow> map_get s2i s;
           forEachM (otherAffectedStep w iSets hwi ims) affectedIntersections acc
         }) iSets ([], []) = Some u"
    and o: "oas = snd u"
    unfolding getOtherAffectedIntersections_def
    by (auto simp: bind_eq_Some_conv split: prod.splits)
  have "\<forall>s \<in> set (snd u). s < length ns"
  proof (rule forEachM_invariant [OF f, where I = "\<lambda>acc. \<forall>s \<in> set (snd acc). s < length ns"])
    show "\<forall>s \<in> set (snd ([], [])). s < length ns" by simp
  next
    fix x t t'
    assume t: "\<forall>s \<in> set (snd t). s < length ns"
      and b: "do {
           affectedIntersections \<leftarrow> map_get s2i x;
           forEachM (otherAffectedStep w iSets hwi ims) affectedIntersections t
         } = Some t'"
    from b obtain ai where g: "forEachM (otherAffectedStep w iSets hwi ims) ai t = Some t'"
      by (auto simp: bind_eq_Some_conv)
    show "\<forall>s \<in> set (snd t'). s < length ns"
    proof (rule forEachM_invariant [OF g, where I = "\<lambda>acc. \<forall>s \<in> set (snd acc). s < length ns"])
      show "\<forall>s \<in> set (snd t). s < length ns" by (rule t)
    next
      fix y a a'
      assume "\<forall>s \<in> set (snd a). s < length ns" "otherAffectedStep w iSets hwi ims y a = Some a'"
      with s show "\<forall>s \<in> set (snd a'). s < length ns"
        by (intro otherAffectedStep_inv [of w iSets hwi ims y a a' ns]) simp_all
    qed
  qed
  with o show ?thesis by simp
qed

subsection \<open>Adding the new set to the maps\<close>

lemma pushPair_valid:
  assumes "pairsValid ns im" "a < length ns" "b < length ns"
  shows "pairsValid ns (pushPair im k (a, b))"
proof (cases "map_get im k")
  case None
  with assms show ?thesis
    by (simp add: pushPair_def pairsValid_set_pairsIn pairsIn_single)
next
  case (Some entry)
  from pairsValid_pairsIn [OF assms(1) Some] assms(2,3) have "pairsIn (length ns) (entry @ [(a, b)])"
    by (simp add: pairsIn_append pairsIn_single)
  with Some assms(1) show ?thesis
    by (simp add: pushPair_def pairsValid_set_pairsIn)
qed

lemma addToIntersectingMapSets_keys:
  assumes "x \<in> fst ` set (addToIntersectingMapSets m s)"
  shows "x = s \<or> x \<in> fst ` set m"
proof -
  from assms obtain c where "x \<in> fst ` set (map_set m s c)"
    by (auto simp: addToIntersectingMapSets_def split: option.splits if_splits)
  from map_set_keys_subset [OF this] show ?thesis .
qed

lemma addToIntersectingMapSets_nonempty: "addToIntersectingMapSets m s \<noteq> []"
  by (auto simp: addToIntersectingMapSets_def map_set_nonempty split: option.splits)

lemma fresh_pair_keys: "s \<in> fst ` set (map_set (map_set [] a c) b d) \<Longrightarrow> s = a \<or> s = b"
  by (auto split: if_splits)

lemma addUpdateToMaps_inv:
  assumes r: "addUpdateToMaps w a b st = Some st'"
    and inv: "inverseOn U w" and wi: "elementsWithin U (setNodes st)"
    and a: "a < length (setNodes st)" and b: "b < length (setNodes st)"
    and c: "locallyComplete (setNodes st)"
    and pv: "pairsValid (setNodes st) (intersectionMap st)"
    and ss: "setsSound w (setNodes st) (intersectionMapSet st)"
  shows "setNodes st' = setNodes st \<and> pairsValid (setNodes st) (intersectionMap st')
     \<and> setsSound w (setNodes st) (intersectionMapSet st')"
proof -
  define ns where "ns = setNodes st"
  define X where "X = intersectSets (rest (ns ! a)) (rest (ns ! b))"
  define key where "key = join w X"
  show ?thesis
  proof (cases "length X > 0")
    case False
    with r have "st' = st" by (simp add: addUpdateToMaps_def X_def ns_def Let_def)
    with pv ss show ?thesis by simp
  next
    case True
    then have "X \<noteq> []" by simp
    moreover have "distinct X" by (simp add: X_def)
    moreover from locallyCompleteD [OF c] a b
    have ra: "set (rest (ns ! a)) \<subseteq> set (collection (ns ! a))"
      and rb: "set (rest (ns ! b)) \<subseteq> set (collection (ns ! b))"
      by (auto simp: ns_def)
    from wi a have "set (collection (ns ! a)) \<subseteq> U" by (simp add: elementsWithin_def ns_def)
    with ra have "set X \<subseteq> U" by (auto simp: X_def)
    ultimately have "set (split w key) = set X"
      using inv by (simp add: inverseOn_def key_def)
    then have k: "set (split w key) = set (rest (ns ! a)) \<inter> set (rest (ns ! b))"
      by (simp add: X_def)
    note ra rb
    with k have ka: "set (split w key) \<subseteq> set (collection (ns ! a))"
      and kb: "set (split w key) \<subseteq> set (collection (ns ! b))" by auto
    from r True have n: "setNodes st' = setNodes st"
      unfolding addUpdateToMaps_def
      by (auto simp: Let_def bind_eq_Some_conv X_def ns_def split: option.splits)
    from r True have im: "intersectionMap st' = pushPair (intersectionMap st) key (a, b)"
      unfolding addUpdateToMaps_def
      by (auto simp: Let_def bind_eq_Some_conv X_def ns_def key_def split: option.splits)
    from r True have "\<exists>sm'. intersectionMapSet st' = map_set (intersectionMapSet st) key sm'
        \<and> (sm' = map_set (map_set [] a 1) b 1
            \<or> (\<exists>sm. map_get (intersectionMapSet st) key = Some sm
                  \<and> sm' = addToIntersectingMapSets (addToIntersectingMapSets sm a) b))"
      unfolding addUpdateToMaps_def
      by (auto simp: Let_def bind_eq_Some_conv X_def ns_def key_def split: option.splits)
    then obtain sm' where ims: "intersectionMapSet st' = map_set (intersectionMapSet st) key sm'"
      and sm': "sm' = map_set (map_set [] a 1) b 1
            \<or> (\<exists>sm. map_get (intersectionMapSet st) key = Some sm
                  \<and> sm' = addToIntersectingMapSets (addToIntersectingMapSets sm a) b)"
      by blast
    have ne: "sm' \<noteq> []"
      using sm' map_set_nonempty [of "map_set [] a 1" b 1]
        addToIntersectingMapSets_nonempty [of _ b] by (elim disjE exE conjE) simp_all
    have keys: "\<forall>s \<in> fst ` set sm'. s < length ns \<and> set (split w key) \<subseteq> set (collection (ns ! s))"
    proof
      fix s assume s: "s \<in> fst ` set sm'"
      from sm' have "s = a \<or> s = b \<or> (\<exists>sm. map_get (intersectionMapSet st) key = Some sm \<and> s \<in> fst ` set sm)"
      proof
        assume "sm' = map_set (map_set [] a 1) b 1"
        with s fresh_pair_keys [of s a 1 b 1] show ?thesis by blast
      next
        assume "\<exists>sm. map_get (intersectionMapSet st) key = Some sm
                  \<and> sm' = addToIntersectingMapSets (addToIntersectingMapSets sm a) b"
        then obtain sm where g: "map_get (intersectionMapSet st) key = Some sm"
          and e: "sm' = addToIntersectingMapSets (addToIntersectingMapSets sm a) b" by blast
        from s e addToIntersectingMapSets_keys [of s "addToIntersectingMapSets sm a" b]
          addToIntersectingMapSets_keys [of s sm a]
        have "s = a \<or> s = b \<or> s \<in> fst ` set sm" by blast
        with g show ?thesis by blast
      qed
      then show "s < length ns \<and> set (split w key) \<subseteq> set (collection (ns ! s))"
      proof (elim disjE exE conjE)
        assume "s = a" with a ka show ?thesis by (simp add: ns_def)
      next
        assume "s = b" with b kb show ?thesis by (simp add: ns_def)
      next
        fix sm assume g: "map_get (intersectionMapSet st) key = Some sm" and "s \<in> fst ` set sm"
        with setsSoundD [OF ss map_get_in [OF g]] show ?thesis unfolding ns_def by blast
      qed
    qed
    from pushPair_valid [OF pv a b] im have "pairsValid (setNodes st) (intersectionMap st')" by simp
    moreover from setsSound_set [OF ss ne] keys ims
    have "setsSound w (setNodes st) (intersectionMapSet st')" by (simp add: ns_def)
    ultimately show ?thesis using n by simp
  qed
qed

lemma addUpdateToMaps_forEach:
  assumes f: "forEachM (\<lambda>p st. addUpdateToMaps w (fst p) (snd p) st) ps st = Some st'"
    and inv: "inverseOn U w" and wi: "elementsWithin U (setNodes st)"
    and ps: "pairsIn (length (setNodes st)) ps"
    and c: "locallyComplete (setNodes st)"
    and pv: "pairsValid (setNodes st) (intersectionMap st)"
    and ss: "setsSound w (setNodes st) (intersectionMapSet st)"
  shows "setNodes st' = setNodes st \<and> pairsValid (setNodes st) (intersectionMap st')
     \<and> setsSound w (setNodes st) (intersectionMapSet st')"
proof -
  define ns where "ns = setNodes st"
  have "setNodes st' = ns \<and> pairsValid ns (intersectionMap st') \<and> setsSound w ns (intersectionMapSet st')"
  proof (rule forEachM_invariant [OF f, where I = "\<lambda>t. setNodes t = ns \<and> pairsValid ns (intersectionMap t)
       \<and> setsSound w ns (intersectionMapSet t)"])
    from pv ss show "setNodes st = ns \<and> pairsValid ns (intersectionMap st)
       \<and> setsSound w ns (intersectionMapSet st)" by (simp add: ns_def)
  next
    fix p t t'
    assume p: "p \<in> set ps"
      and t: "setNodes t = ns \<and> pairsValid ns (intersectionMap t) \<and> setsSound w ns (intersectionMapSet t)"
      and u: "addUpdateToMaps w (fst p) (snd p) t = Some t'"
    from p ps have "fst p < length ns" "snd p < length ns" by (auto simp: pairsIn_def ns_def)
    with addUpdateToMaps_inv [OF u inv] t c wi
    show "setNodes t' = ns \<and> pairsValid ns (intersectionMap t') \<and> setsSound w ns (intersectionMapSet t')"
      by (simp add: ns_def)
  qed
  then show ?thesis by (simp add: ns_def)
qed

lemma addUpdatedToMaps_inv:
  assumes r: "addUpdatedToMaps w new prevSets prs st = Some st'"
    and inv: "inverseOn U w" and wi: "elementsWithin U (setNodes st)"
    and new: "new < length (setNodes st)"
    and prev: "\<forall>s \<in> set prevSets. s < length (setNodes st)"
    and ps: "pairsIn (length (setNodes st)) prs"
    and c: "locallyComplete (setNodes st)"
    and pv: "pairsValid (setNodes st) (intersectionMap st)"
    and ss: "setsSound w (setNodes st) (intersectionMapSet st)"
  shows "setNodes st' = setNodes st \<and> pairsValid (setNodes st) (intersectionMap st')
     \<and> setsSound w (setNodes st) (intersectionMapSet st')"
proof -
  from r obtain st1 where
    f1: "forEachM (\<lambda>s st. addUpdateToMaps w s new st) prevSets st = Some st1" and
    f2: "forEachM (\<lambda>(set1, set2) st. addUpdateToMaps w set1 set2 st) prs st1 = Some st'"
    unfolding addUpdatedToMaps_def by (auto simp: bind_eq_Some_conv)
  define ns where "ns = setNodes st"
  have 1: "setNodes st1 = ns \<and> pairsValid ns (intersectionMap st1) \<and> setsSound w ns (intersectionMapSet st1)"
  proof (rule forEachM_invariant [OF f1, where I = "\<lambda>t. setNodes t = ns \<and> pairsValid ns (intersectionMap t)
       \<and> setsSound w ns (intersectionMapSet t)"])
    from pv ss show "setNodes st = ns \<and> pairsValid ns (intersectionMap st)
       \<and> setsSound w ns (intersectionMapSet st)" by (simp add: ns_def)
  next
    fix s t t'
    assume s: "s \<in> set prevSets"
      and t: "setNodes t = ns \<and> pairsValid ns (intersectionMap t) \<and> setsSound w ns (intersectionMapSet t)"
      and u: "addUpdateToMaps w s new t = Some t'"
    from s prev new have "s < length ns" "new < length ns" by (auto simp: ns_def)
    with addUpdateToMaps_inv [OF u inv] t c wi
    show "setNodes t' = ns \<and> pairsValid ns (intersectionMap t') \<and> setsSound w ns (intersectionMapSet t')"
      by (simp add: ns_def)
  qed
  have "(\<lambda>(set1, set2) st. addUpdateToMaps w set1 set2 st) = (\<lambda>p st. addUpdateToMaps w (fst p) (snd p) st)"
    by (simp add: fun_eq_iff split: prod.splits)
  with f2 have f2': "forEachM (\<lambda>p st. addUpdateToMaps w (fst p) (snd p) st) prs st1 = Some st'"
    by simp
  from addUpdateToMaps_forEach [OF f2' inv] 1 ps c wi show ?thesis
    by (simp add: ns_def)
qed

subsection \<open>A node gets the new node as an import\<close>

lemma structuredD:
  assumes "structured n0 ns"
  shows "forwardImports ns" "locallyComplete ns"
    "\<And>k. k < n0 \<Longrightarrow> depth (ns ! k) = Num 0"
    "\<And>k. k < length ns \<Longrightarrow> \<exists>a. depth (ns ! k) = Num a"
    "\<And>k j. k < length ns \<Longrightarrow> j \<in> set (importsOf (ns ! k)) \<Longrightarrow>
           \<exists>a b. depth (ns ! k) = Num a \<and> depth (ns ! j) = Num b \<and> a + 1 \<le> b"
  using assms unfolding structured_def by blast+

lemma importedFromD:
  "importedFrom n0 m ns \<Longrightarrow> n0 \<le> j \<Longrightarrow> j < m \<Longrightarrow> \<exists>k < j. j \<in> set (importsOf (ns ! k))"
  unfolding importedFrom_def by blast

lemma splitResult_iff:
  "splitResult n0 ns \<longleftrightarrow> n0 \<le> length ns \<and> structured n0 ns \<and> importedFrom n0 (length ns) ns"
proof
  assume r: "splitResult n0 ns"
  then have len: "n0 \<le> length ns" and f: "forwardImports ns" and c: "locallyComplete ns"
    and roots: "\<And>k. k < n0 \<Longrightarrow> depth (ns ! k) = Num 0"
    and gen: "\<And>j. n0 \<le> j \<Longrightarrow> j < length ns \<Longrightarrow> \<exists>k < j. j \<in> set (importsOf (ns ! k))"
    and edges: "\<And>k j. k < length ns \<Longrightarrow> j \<in> set (importsOf (ns ! k)) \<Longrightarrow>
           \<exists>a b. depth (ns ! k) = Num a \<and> depth (ns ! j) = Num b \<and> a + 1 \<le> b"
    unfolding splitResult_def by blast+
  have num: "\<exists>a. depth (ns ! k) = Num a" if k: "k < length ns" for k
  proof (cases "k < n0")
    case True
    with roots show ?thesis by simp
  next
    case False
    with gen [of k] k obtain k' where k': "k' < k" "k \<in> set (importsOf (ns ! k'))" by auto
    with k edges [of k' k] show ?thesis by auto
  qed
  from f c roots num edges have "structured n0 ns"
    unfolding structured_def by blast
  moreover from gen have "importedFrom n0 (length ns) ns"
    unfolding importedFrom_def by blast
  ultimately show "n0 \<le> length ns \<and> structured n0 ns \<and> importedFrom n0 (length ns) ns"
    using len by simp
next
  assume "n0 \<le> length ns \<and> structured n0 ns \<and> importedFrom n0 (length ns) ns"
  then show "splitResult n0 ns"
    unfolding splitResult_def structured_def importedFrom_def by blast
qed

lemma add_import_structured:
  fixes ns ns' :: "'a node list"
  assumes st: "structured n0 ns" and im: "importedFrom n0 new ns"
    and len: "length ns = Suc new" and len': "length ns' = Suc new"
    and n0: "n0 \<le> new" and s: "s < new"
    and col: "\<And>k. k \<le> new \<Longrightarrow> collection (ns' ! k) = collection (ns ! k)"
    and imp: "\<And>k. k \<le> new \<Longrightarrow>
          set (importsOf (ns' ! k)) = set (importsOf (ns ! k)) \<union> (if k = s then {new} else {})"
    and rst: "\<And>k. k \<le> new \<Longrightarrow>
          set (rest (ns' ! k)) = (if k = s then set (rest (ns ! k)) - set (collection (ns ! new))
                                  else set (rest (ns ! k)))"
    and dep: "\<And>k. k < new \<Longrightarrow> depth (ns' ! k) = depth (ns ! k)"
    and dnew: "depth (ns ! new) = Num b" "depth (ns' ! new) = Num b'" "b \<le> b'"
    and ds: "depth (ns ! s) = Num a" "a + 1 \<le> b'"
    and sub: "set (collection (ns ! new)) \<subseteq> set (collection (ns ! s))"
  shows "structured n0 ns' \<and> importedFrom n0 (Suc new) ns'"
proof -
  note f = structuredD(1) [OF st] and c = structuredD(2) [OF st]
    and roots = structuredD(3) [OF st] and num = structuredD(4) [OF st]
    and edges = structuredD(5) [OF st]
  have old: "j \<in> set (importsOf (ns ! k)) \<or> (k = s \<and> j = new)"
    if "k \<le> new" "j \<in> set (importsOf (ns' ! k))" for k j
    using that imp [of k] by (auto split: if_splits)
  have f': "forwardImports ns'"
    unfolding forwardImports_def
  proof (intro allI impI ballI)
    fix k j assume k: "k < length ns'" and j: "j \<in> set (importsOf (ns' ! k))"
    from k len' have kn: "k \<le> new" by simp
    from old [OF kn j] show "k < j \<and> j < length ns'"
    proof
      assume "j \<in> set (importsOf (ns ! k))"
      with forwardImportsD [OF f, of k j] kn len len' show ?thesis by simp
    next
      assume "k = s \<and> j = new"
      with s len' show ?thesis by simp
    qed
  qed
  have c': "locallyComplete ns'"
    unfolding locallyComplete_def
  proof (intro allI impI)
    fix k assume k: "k < length ns'"
    from k len' have kn: "k \<le> new" by simp
    have "(\<Union>j \<in> set (importsOf (ns' ! k)). set (collection (ns' ! j)))
        = (\<Union>j \<in> set (importsOf (ns' ! k)). set (collection (ns ! j)))"
    proof (rule SUP_cong [OF refl])
      fix j assume "j \<in> set (importsOf (ns' ! k))"
      from forwardImportsD [OF f' k this] len' have "j \<le> new" by simp
      then show "set (collection (ns' ! j)) = set (collection (ns ! j))" by (simp add: col)
    qed
    also have "\<dots> = (\<Union>j \<in> set (importsOf (ns ! k)). set (collection (ns ! j)))
          \<union> (if k = s then set (collection (ns ! new)) else {})"
      by (simp add: imp [OF kn])
    finally have u: "(\<Union>j \<in> set (importsOf (ns' ! k)). set (collection (ns' ! j)))
        = (\<Union>j \<in> set (importsOf (ns ! k)). set (collection (ns ! j)))
          \<union> (if k = s then set (collection (ns ! new)) else {})" .
    from locallyCompleteD [OF c, of k] kn len
    have o: "set (collection (ns ! k)) = set (rest (ns ! k))
          \<union> (\<Union>j \<in> set (importsOf (ns ! k)). set (collection (ns ! j)))" by simp
    show "set (collection (ns' ! k)) = set (rest (ns' ! k))
          \<union> (\<Union>j \<in> set (importsOf (ns' ! k)). set (collection (ns' ! j)))"
    proof (cases "k = s")
      case True
      have "set (rest (ns' ! k)) \<union> (\<Union>j \<in> set (importsOf (ns' ! k)). set (collection (ns' ! j)))
          = (set (rest (ns ! k)) - set (collection (ns ! new)))
             \<union> ((\<Union>j \<in> set (importsOf (ns ! k)). set (collection (ns ! j))) \<union> set (collection (ns ! new)))"
        unfolding u rst [OF kn] using True by simp
      also have "\<dots> = set (collection (ns ! k)) \<union> set (collection (ns ! new))"
        unfolding o by blast
      also have "\<dots> = set (collection (ns ! k))"
        using sub True by blast
      finally show ?thesis by (simp add: col [OF kn])
    next
      case False
      then show ?thesis unfolding u rst [OF kn] col [OF kn] o by simp
    qed
  qed
  have roots': "\<forall>k < n0. depth (ns' ! k) = Num 0"
    using roots dep n0 by simp
  have num': "\<forall>k < length ns'. \<exists>a. depth (ns' ! k) = Num a"
  proof (intro allI impI)
    fix k assume "k < length ns'"
    with len' have "k < new \<or> k = new" by auto
    then show "\<exists>a. depth (ns' ! k) = Num a"
    proof
      assume k: "k < new"
      with num [of k] len dep [OF k] show ?thesis by simp
    next
      assume "k = new"
      with dnew(2) show ?thesis by simp
    qed
  qed
  have edges': "\<forall>k j. k < length ns' \<longrightarrow> j \<in> set (importsOf (ns' ! k)) \<longrightarrow>
           (\<exists>a b. depth (ns' ! k) = Num a \<and> depth (ns' ! j) = Num b \<and> a + 1 \<le> b)"
  proof (intro allI impI)
    fix k j assume k: "k < length ns'" and j: "j \<in> set (importsOf (ns' ! k))"
    from k len' have kn: "k \<le> new" by simp
    from forwardImportsD [OF f' k j] len' have kj: "k < j" "j \<le> new" by simp_all
    then have kl: "k < new" by simp
    from old [OF kn j]
    show "\<exists>a b. depth (ns' ! k) = Num a \<and> depth (ns' ! j) = Num b \<and> a + 1 \<le> b"
    proof
      assume o: "j \<in> set (importsOf (ns ! k))"
      from edges [of k j] o kn len obtain x y where
        xy: "depth (ns ! k) = Num x" "depth (ns ! j) = Num y" "x + 1 \<le> y" by auto
      show ?thesis
      proof (cases "j = new")
        case True
        with xy dnew have "x + 1 \<le> b'" by simp
        with xy(1) dep [OF kl] dnew(2) True show ?thesis by simp
      next
        case False
        with kj have "j < new" by simp
        with xy dep [OF kl] dep [of j] show ?thesis by simp
      qed
    next
      assume "k = s \<and> j = new"
      with ds dnew(2) dep [OF s] show ?thesis by simp
    qed
  qed
  have "importedFrom n0 (Suc new) ns'"
    unfolding importedFrom_def
  proof (intro allI impI)
    fix j assume j: "n0 \<le> j \<and> j < Suc new"
    show "\<exists>k < j. j \<in> set (importsOf (ns' ! k))"
    proof (cases "j = new")
      case True
      with s imp [of s] show ?thesis by (intro exI [of _ s]) simp
    next
      case False
      with j have jl: "j < new" by simp
      with importedFromD [OF im, of j] j obtain k where k: "k < j" "j \<in> set (importsOf (ns ! k))"
        by auto
      with jl imp [of k] show ?thesis by (intro exI [of _ k]) simp
    qed
  qed
  with f' c' roots' num' edges' show ?thesis
    unfolding structured_def by blast
qed

lemma js_ge_depth:
  "\<exists>b'. (if js_ge (Num a) (Num b) then js_plus1 (Num a) else Num b) = Num b' \<and> b \<le> b' \<and> a + 1 \<le> b'"
  by simp

lemma extended_nth:
  "k < length (fst acc) \<Longrightarrow> extended E acc ! k = fst acc ! k"
  "extended E acc ! length (fst acc) = \<lparr>collection = E, rest = E, importsOf = [], depth = snd acc\<rparr>"
  "length (extended E acc) = Suc (length (fst acc))"
  by (simp_all add: extended_def nth_append)

lemma updateSetObj_step:
  assumes I: "foldInv n0 new E cols acc" and s: "s < new"
    and sub: "set E \<subseteq> set (collection (fst acc ! s))"
  shows "foldInv n0 new E cols (updateSetObj s new E acc)
     \<and> importedFrom n0 (Suc new) (extended E (updateSetObj s new E acc))"
proof -
  obtain nodes d where acc: "acc = (nodes, d)" by (cases acc)
  define setNode where "setNode = nodes ! s"
  define d' where "d' = (if js_ge (depth setNode) d then js_plus1 (depth setNode) else d)"
  define nodes' where "nodes' = nodes[s := setNode\<lparr>rest := filter (\<lambda>element. element \<notin> set E) (rest setNode),
                            importsOf := importsOf setNode @ [new]\<rparr>]"
  have u: "updateSetObj s new E acc = (nodes', d')"
    by (simp add: updateSetObj_def acc Let_def nodes'_def d'_def setNode_def)
  from I acc have len: "length nodes = new" and n0: "n0 \<le> new" and cols: "map collection nodes = cols"
    and st: "structured n0 (extended E acc)" and im: "importedFrom n0 new (extended E acc)"
    by (simp_all add: foldInv_def)
  define ns where "ns = extended E acc"
  define ns' where "ns' = extended E (nodes', d')"
  have l: "length ns = Suc new" and l': "length ns' = Suc new"
    by (simp_all add: ns_def ns'_def extended_def acc len nodes'_def)
  have nth: "ns ! k = nodes ! k" if "k < new" for k
    using that by (simp add: ns_def extended_def acc nth_append len)
  have nth': "ns' ! k = (if k = s then setNode\<lparr>rest := filter (\<lambda>element. element \<notin> set E) (rest setNode),
                            importsOf := importsOf setNode @ [new]\<rparr> else nodes ! k)" if "k < new" for k
    using that by (simp add: ns'_def extended_def nth_append len nodes'_def)
  have last: "ns ! new = \<lparr>collection = E, rest = E, importsOf = [], depth = d\<rparr>"
    by (simp add: ns_def extended_def acc nth_append len)
  have last': "ns' ! new = \<lparr>collection = E, rest = E, importsOf = [], depth = d'\<rparr>"
    by (simp add: ns'_def extended_def nth_append len nodes'_def)
  from structuredD(4) [OF st, of s] s obtain a where a: "depth (ns ! s) = Num a"
    by (auto simp: ns_def extended_nth acc len)
  from structuredD(4) [OF st, of new] obtain b where b: "depth (ns ! new) = Num b"
    by (auto simp: ns_def extended_nth acc len)
  from b last have db: "d = Num b" by simp
  from a nth [OF s] have da: "depth setNode = Num a" by (simp add: setNode_def)
  from js_ge_depth [of a b] obtain b' where b': "d' = Num b'" "b \<le> b'" "a + 1 \<le> b'"
    unfolding d'_def da db by blast
  have cases: "k < new \<or> k = new" if "k \<le> new" for k using that by auto
  have "structured n0 ns' \<and> importedFrom n0 (Suc new) ns'"
  proof (rule add_import_structured [where ns = ns and s = s and a = a and b = b and b' = b'])
    show "structured n0 ns" using st by (simp add: ns_def)
    show "importedFrom n0 new ns" using im by (simp add: ns_def)
    show "length ns = Suc new" by (rule l)
    show "length ns' = Suc new" by (rule l')
    show "n0 \<le> new" by (rule n0)
    show "s < new" by (rule s)
    show "collection (ns' ! k) = collection (ns ! k)" if "k \<le> new" for k
      using cases [OF that] by (auto simp: nth nth' last last' setNode_def)
    show "set (importsOf (ns' ! k)) = set (importsOf (ns ! k)) \<union> (if k = s then {new} else {})"
      if "k \<le> new" for k
      using cases [OF that] s by (auto simp: nth nth' last last' setNode_def)
    show "set (rest (ns' ! k)) = (if k = s then set (rest (ns ! k)) - set (collection (ns ! new))
                                  else set (rest (ns ! k)))" if "k \<le> new" for k
      using cases [OF that] s by (auto simp: nth nth' last last' setNode_def)
    show "depth (ns' ! k) = depth (ns ! k)" if "k < new" for k
      using that by (auto simp: nth nth' setNode_def)
    show "depth (ns ! new) = Num b" by (rule b)
    show "depth (ns' ! new) = Num b'" by (simp add: last' b')
    show "b \<le> b'" by (rule b')
    show "depth (ns ! s) = Num a" by (rule a)
    show "a + 1 \<le> b'" by (rule b')
    show "set (collection (ns ! new)) \<subseteq> set (collection (ns ! s))"
      using sub by (simp add: last nth [OF s] acc)
  qed
  moreover have "map collection nodes' = cols"
    unfolding cols [symmetric]
    using s len by (intro nth_equalityI) (auto simp: nodes'_def nth_list_update setNode_def)
  moreover have "importedFrom n0 new ns'"
    using calculation(1) unfolding importedFrom_def by auto
  ultimately show ?thesis
    unfolding u using len n0 by (simp add: foldInv_def ns'_def nodes'_def)
qed

lemma fold_updateSetObj:
  assumes I: "foldInv n0 new E cols acc"
    and v: "\<forall>s \<in> set ss. s < new \<and> set E \<subseteq> set (cols ! s)"
    and ne: "ss \<noteq> []"
  shows "foldInv n0 new E cols (fold (\<lambda>s acc. updateSetObj s new E acc) ss acc)
     \<and> importedFrom n0 (Suc new) (extended E (fold (\<lambda>s acc. updateSetObj s new E acc) ss acc))"
proof -
  from ne obtain s0 rest0 where ss: "ss = s0 # rest0" by (cases ss) auto
  have col: "collection (fst a ! s) = cols ! s" if "foldInv n0 new E cols a" "s < new" for a s
  proof -
    from that have "map collection (fst a) ! s = cols ! s" "s < length (fst a)"
      by (simp_all add: foldInv_def)
    then show ?thesis by simp
  qed
  from v ss have s0: "s0 < new" "set E \<subseteq> set (cols ! s0)" by simp_all
  with col [OF I s0(1)] have "set E \<subseteq> set (collection (fst acc ! s0))" by simp
  from updateSetObj_step [OF I s0(1) this]
  have 1: "foldInv n0 new E cols (updateSetObj s0 new E acc)
     \<and> importedFrom n0 (Suc new) (extended E (updateSetObj s0 new E acc))" .
  have "foldInv n0 new E cols (fold (\<lambda>s acc. updateSetObj s new E acc) rest0 (updateSetObj s0 new E acc))
     \<and> importedFrom n0 (Suc new)
          (extended E (fold (\<lambda>s acc. updateSetObj s new E acc) rest0 (updateSetObj s0 new E acc)))"
  proof (rule fold_invariant [where I = "\<lambda>a. foldInv n0 new E cols a
          \<and> importedFrom n0 (Suc new) (extended E a)"])
    show "foldInv n0 new E cols (updateSetObj s0 new E acc)
     \<and> importedFrom n0 (Suc new) (extended E (updateSetObj s0 new E acc))" by (rule 1)
  next
    fix s a
    assume s: "s \<in> set rest0"
      and a: "foldInv n0 new E cols a \<and> importedFrom n0 (Suc new) (extended E a)"
    from s v ss have sv: "s < new" "set E \<subseteq> set (cols ! s)" by simp_all
    with col [of a s] a have "set E \<subseteq> set (collection (fst a ! s))" by simp
    from updateSetObj_step [OF conjunct1 [OF a] sv(1) this]
    show "foldInv n0 new E cols (updateSetObj s new E a)
     \<and> importedFrom n0 (Suc new) (extended E (updateSetObj s new E a))" .
  qed
  then show ?thesis by (simp add: ss)
qed

lemma fold_updateOtherAffected:
  assumes I: "foldInv n0 new E cols acc \<and> importedFrom n0 (Suc new) (extended E acc)"
    and v: "\<forall>s \<in> set ss. s < new"
    and e: "set elements = set E"
  shows "foldInv n0 new E cols (fold (\<lambda>s acc. updateOtherAffected s new elements E acc) ss acc)
     \<and> importedFrom n0 (Suc new)
          (extended E (fold (\<lambda>s acc. updateOtherAffected s new elements E acc) ss acc))"
proof (rule fold_invariant [where I = "\<lambda>a. foldInv n0 new E cols a
          \<and> importedFrom n0 (Suc new) (extended E a)"])
  show "foldInv n0 new E cols acc \<and> importedFrom n0 (Suc new) (extended E acc)" by (rule I)
next
  fix s a
  assume s: "s \<in> set ss"
    and a: "foldInv n0 new E cols a \<and> importedFrom n0 (Suc new) (extended E a)"
  from s v have sv: "s < new" by simp
  show "foldInv n0 new E cols (updateOtherAffected s new elements E a)
     \<and> importedFrom n0 (Suc new) (extended E (updateOtherAffected s new elements E a))"
  proof (cases "list_all (\<lambda>element. element \<in> set (rest (fst a ! s))) elements")
    case True
    then have "set E \<subseteq> set (rest (fst a ! s))"
      using e by (auto simp: list_all_iff)
    moreover from a have st: "structured n0 (extended E a)" and len: "length (fst a) = new"
      by (simp_all add: foldInv_def)
    from locallyCompleteD [OF structuredD(2) [OF st], of s] sv len
    have "set (rest (fst a ! s)) \<subseteq> set (collection (fst a ! s))"
      by (simp add: extended_nth)
    ultimately have "set E \<subseteq> set (collection (fst a ! s))" by blast
    from updateSetObj_step [OF conjunct1 [OF a] sv this] True show ?thesis
      by (simp add: updateOtherAffected_def)
  next
    case False
    with a show ?thesis by (simp add: updateOtherAffected_def)
  qed
qed

lemma extend_structured:
  assumes r: "splitResult n0 ns"
  shows "foldInv n0 (length ns) E (map collection ns) (ns, Num 1)"
proof -
  from r have len: "n0 \<le> length ns" and st: "structured n0 ns"
    and im: "importedFrom n0 (length ns) ns"
    by (simp_all add: splitResult_iff)
  note f = structuredD(1) [OF st] and c = structuredD(2) [OF st]
    and roots = structuredD(3) [OF st] and num = structuredD(4) [OF st]
    and edges = structuredD(5) [OF st]
  define ext where "ext = extended E (ns, Num 1)"
  have l: "length ext = Suc (length ns)" by (simp add: ext_def extended_def)
  have nth: "ext ! k = ns ! k" if "k < length ns" for k
    using that by (simp add: ext_def extended_def nth_append)
  have last: "ext ! length ns = \<lparr>collection = E, rest = E, importsOf = [], depth = Num 1\<rparr>"
    by (simp add: ext_def extended_def)
  have cases: "k < length ns \<or> k = length ns" if "k < length ext" for k
    using that l by auto
  have f': "forwardImports ext"
    unfolding forwardImports_def
  proof (intro allI impI ballI)
    fix k j assume k: "k < length ext" and j: "j \<in> set (importsOf (ext ! k))"
    from cases [OF k] show "k < j \<and> j < length ext"
    proof
      assume kk: "k < length ns"
      with forwardImportsD [OF f kk, of j] j l show ?thesis by (simp add: nth)
    next
      assume "k = length ns"
      with j last show ?thesis by simp
    qed
  qed
  have c': "locallyComplete ext"
    unfolding locallyComplete_def
  proof (intro allI impI)
    fix k assume k: "k < length ext"
    from cases [OF k]
    show "set (collection (ext ! k)) = set (rest (ext ! k))
          \<union> (\<Union>j \<in> set (importsOf (ext ! k)). set (collection (ext ! j)))"
    proof
      assume kk: "k < length ns"
      have "(\<Union>j \<in> set (importsOf (ns ! k)). set (collection (ext ! j)))
          = (\<Union>j \<in> set (importsOf (ns ! k)). set (collection (ns ! j)))"
      proof (rule SUP_cong [OF refl])
        fix j assume "j \<in> set (importsOf (ns ! k))"
        from forwardImportsD [OF f kk this] show "set (collection (ext ! j)) = set (collection (ns ! j))"
          by (simp add: nth)
      qed
      with locallyCompleteD [OF c kk] show ?thesis by (simp add: nth [OF kk])
    next
      assume "k = length ns"
      with last show ?thesis by simp
    qed
  qed
  have roots': "\<forall>k < n0. depth (ext ! k) = Num 0"
    using roots len by (simp add: nth)
  have num': "\<forall>k < length ext. \<exists>a. depth (ext ! k) = Num a"
  proof (intro allI impI)
    fix k assume k: "k < length ext"
    from cases [OF k] show "\<exists>a. depth (ext ! k) = Num a"
    proof
      assume "k < length ns"
      with num [of k] show ?thesis by (simp add: nth)
    next
      assume "k = length ns"
      with last show ?thesis by simp
    qed
  qed
  have edges': "\<forall>k j. k < length ext \<longrightarrow> j \<in> set (importsOf (ext ! k)) \<longrightarrow>
           (\<exists>a b. depth (ext ! k) = Num a \<and> depth (ext ! j) = Num b \<and> a + 1 \<le> b)"
  proof (intro allI impI)
    fix k j assume k: "k < length ext" and j: "j \<in> set (importsOf (ext ! k))"
    from cases [OF k]
    show "\<exists>a b. depth (ext ! k) = Num a \<and> depth (ext ! j) = Num b \<and> a + 1 \<le> b"
    proof
      assume kk: "k < length ns"
      with j have jj: "j \<in> set (importsOf (ns ! k))" by (simp add: nth)
      from forwardImportsD [OF f kk jj] have "j < length ns" by simp
      with edges [OF kk jj] kk show ?thesis by (simp add: nth)
    next
      assume "k = length ns"
      with j last show ?thesis by simp
    qed
  qed
  have "importedFrom n0 (length ns) ext"
    unfolding importedFrom_def
  proof (intro allI impI)
    fix j assume j: "n0 \<le> j \<and> j < length ns"
    with importedFromD [OF im, of j] obtain k where k: "k < j" "j \<in> set (importsOf (ns ! k))"
      by auto
    with j show "\<exists>k < j. j \<in> set (importsOf (ext ! k))"
      by (intro exI [of _ k]) (simp add: nth)
  qed
  moreover from f' c' roots' num' edges' have "structured n0 ext"
    unfolding structured_def by blast
  ultimately show ?thesis
    using len by (simp add: foldInv_def ext_def)
qed

subsection \<open>One turn of the loop\<close>

lemma splitSetsStep_alt:
  "splitSetsStep w st = do {
     hh \<leftarrow> getHighestWeightIntersection w (weightIntersectionMap st) (intersectionMapSet st);
     mapSet \<leftarrow> map_get (intersectionMapSet st) (fst hh);
     oo \<leftarrow> getOtherAffectedIntersections w (map fst mapSet) (setToIntersectionMap st)
         (fst hh) (intersectionMapSet st);
     rr \<leftarrow> removeUpdatedFromMaps w (fst hh) (map fst mapSet) (fst oo) (snd oo) st (snd hh);
     addUpdatedToMaps w (length (setNodes (fst rr))) [0 ..< length (setNodes (fst rr))] (snd rr)
       ((fst rr)\<lparr>setNodes := extended (cloneSet (split w (fst hh)))
          (fold (\<lambda>s acc. updateOtherAffected s (length (setNodes (fst rr))) (split w (fst hh))
                   (cloneSet (split w (fst hh))) acc) (snd oo)
             (fold (\<lambda>s acc. updateSetObj s (length (setNodes (fst rr))) (cloneSet (split w (fst hh))) acc)
                (map fst mapSet) (setNodes (fst rr), Num 1)))\<rparr>)
   }"
  by (simp add: splitSetsStep_def Let_def case_prod_unfold extended_def)

lemma pairsIn_mono: "pairsIn n ps \<Longrightarrow> n \<le> m \<Longrightarrow> pairsIn m ps"
  unfolding pairsIn_def by fastforce

lemma splitSetsStep_inv:
  assumes r: "splitSetsStep w st = Some st'" and inv: "inverseOn (\<Union> (set ` set sets)) w"
    and I: "weightedInv w sets st"
  shows "weightedInv w sets st'"
proof -
  define n0 where "n0 = length sets"
  define ns where "ns = setNodes st"
  from I have sr: "splitResult n0 ns"
    and cols: "\<And>k. k < n0 \<Longrightarrow> collection (ns ! k) = sets ! k"
    and pv: "pairsValid ns (intersectionMap st)"
    and ss: "setsSound w ns (intersectionMapSet st)"
    and wi: "elementsWithin (\<Union> (set ` set sets)) ns"
    by (simp_all add: weightedInv_def n0_def ns_def)
  from r obtain hh mapSet oo rr where
    g: "map_get (intersectionMapSet st) (fst hh) = Some mapSet" and
    o: "getOtherAffectedIntersections w (map fst mapSet) (setToIntersectionMap st)
         (fst hh) (intersectionMapSet st) = Some oo" and
    rm: "removeUpdatedFromMaps w (fst hh) (map fst mapSet) (fst oo) (snd oo) st (snd hh) = Some rr" and
    a: "addUpdatedToMaps w (length (setNodes (fst rr))) [0 ..< length (setNodes (fst rr))] (snd rr)
       ((fst rr)\<lparr>setNodes := extended (cloneSet (split w (fst hh)))
          (fold (\<lambda>s acc. updateOtherAffected s (length (setNodes (fst rr))) (split w (fst hh))
                   (cloneSet (split w (fst hh))) acc) (snd oo)
             (fold (\<lambda>s acc. updateSetObj s (length (setNodes (fst rr))) (cloneSet (split w (fst hh))) acc)
                (map fst mapSet) (setNodes (fst rr), Num 1)))\<rparr>) = Some st'"
    unfolding splitSetsStep_alt by (auto simp: bind_eq_Some_conv)
  define hwi where "hwi = fst hh"
  define E where "E = cloneSet (split w hwi)"
  define new where "new = length ns"
  from removeUpdatedFromMaps_inv [of w "fst hh" "map fst mapSet" "fst oo" "snd oo" st "snd hh" "fst rr" "snd rr"]
    rm pv ss
  have n1: "setNodes (fst rr) = ns" and pv1: "pairsValid ns (intersectionMap (fst rr))"
    and ss1: "setsSound w ns (intersectionMapSet (fst rr))" and prs: "pairsIn new (snd rr)"
    by (simp_all add: ns_def new_def)
  from getOtherAffectedIntersections_valid [of w "map fst mapSet" "setToIntersectionMap st" "fst hh"
      "intersectionMapSet st" "fst oo" "snd oo" ns] o ss
  have oas: "\<forall>s \<in> set (snd oo). s < new" by (simp add: ns_def new_def)
  from setsSoundD [OF ss map_get_in [OF g]]
  have ne: "mapSet \<noteq> []"
    and ms: "\<forall>s \<in> fst ` set mapSet. s < length ns \<and> set (split w hwi) \<subseteq> set (collection (ns ! s))"
    by (simp_all add: hwi_def)
  define acc1 where "acc1 = fold (\<lambda>s acc. updateSetObj s new E acc) (map fst mapSet) (ns, Num 1)"
  define acc2 where "acc2 = fold (\<lambda>s acc. updateOtherAffected s new (split w hwi) E acc) (snd oo) acc1"
  define nodes' where "nodes' = extended E acc2"
  from a have a': "addUpdatedToMaps w new [0 ..< new] (snd rr) ((fst rr)\<lparr>setNodes := nodes'\<rparr>) = Some st'"
    unfolding nodes'_def acc2_def acc1_def E_def hwi_def new_def n1 .
  have i0: "foldInv n0 new E (map collection ns) (ns, Num 1)"
    unfolding new_def by (rule extend_structured [OF sr])
  have "\<forall>s \<in> set (map fst mapSet). s < new \<and> set E \<subseteq> set (map collection ns ! s)"
  proof
    fix s assume "s \<in> set (map fst mapSet)"
    then have "s \<in> fst ` set mapSet" by simp
    with ms have "s < length ns" "set (split w hwi) \<subseteq> set (collection (ns ! s))" by blast+
    then show "s < new \<and> set E \<subseteq> set (map collection ns ! s)"
      by (simp add: new_def E_def)
  qed
  from fold_updateSetObj [OF i0 this] ne
  have i1: "foldInv n0 new E (map collection ns) acc1 \<and> importedFrom n0 (Suc new) (extended E acc1)"
    by (simp add: acc1_def)
  have "set (split w hwi) = set E" by (simp add: E_def)
  from fold_updateOtherAffected [OF i1 oas this]
  have i2: "foldInv n0 new E (map collection ns) acc2" and im2: "importedFrom n0 (Suc new) nodes'"
    by (simp_all add: acc2_def nodes'_def)
  from i2 have l2: "length (fst acc2) = new" and nn: "n0 \<le> new"
    and c2: "map collection (fst acc2) = map collection ns"
    and st2: "structured n0 nodes'"
    by (simp_all add: foldInv_def nodes'_def)
  have len': "length nodes' = Suc new" by (simp add: nodes'_def extended_def l2)
  have col': "collection (nodes' ! k) = collection (ns ! k)" if "k < new" for k
  proof -
    from that l2 have "map collection (fst acc2) ! k = collection (fst acc2 ! k)" by simp
    with c2 that have "collection (fst acc2 ! k) = collection (ns ! k)" by (simp add: new_def)
    with that l2 show ?thesis by (simp add: nodes'_def extended_nth)
  qed
  from st2 im2 nn len' have sr': "splitResult n0 nodes'"
    by (simp add: splitResult_iff)
  have pv': "pairsValid nodes' (intersectionMap (fst rr))"
    using pairsValid_mono [OF pv1, of nodes'] len' by (simp add: new_def)
  have ss': "setsSound w nodes' (intersectionMapSet (fst rr))"
    using setsSound_mono [OF ss1, of nodes'] len' col' by (simp add: new_def)
  have wi': "elementsWithin (\<Union> (set ` set sets)) nodes'"
    unfolding elementsWithin_def
  proof (intro allI impI)
    fix k assume "k < length nodes'"
    with len' have "k < new \<or> k = new" by auto
    then show "set (collection (nodes' ! k)) \<subseteq> \<Union> (set ` set sets)"
    proof
      assume "k < new"
      with col' [of k] wi show ?thesis by (simp add: elementsWithin_def new_def)
    next
      assume k: "k = new"
      from ne obtain p where p: "p \<in> set mapSet" by (cases mapSet) auto
      with ms have "fst p < length ns" "set (split w hwi) \<subseteq> set (collection (ns ! fst p))"
        by blast+
      with wi have "set (split w hwi) \<subseteq> \<Union> (set ` set sets)"
        unfolding elementsWithin_def by blast
      moreover have "collection (nodes' ! new) = E"
        using l2 by (simp add: nodes'_def extended_def nth_append)
      ultimately show ?thesis by (simp add: k E_def)
    qed
  qed
  have "setNodes st' = nodes' \<and> pairsValid nodes' (intersectionMap st')
     \<and> setsSound w nodes' (intersectionMapSet st')"
    using addUpdatedToMaps_inv [OF a' inv] len' pairsIn_mono [OF prs, of "Suc new"] pv' ss'
      structuredD(2) [OF st2] wi'
    by simp
  moreover have "\<forall>k < n0. collection (nodes' ! k) = sets ! k"
    using col' cols nn by simp
  ultimately show ?thesis
    using sr' wi' by (simp add: weightedInv_def n0_def)
qed

subsection \<open>The initial state and the whole run\<close>

lemma imSound_set:
  assumes "imSound w ns im" "ps \<noteq> []"
    "\<forall>p \<in> set ps. fst p < length ns \<and> snd p < length ns
        \<and> set (split w k) \<subseteq> set (collection (ns ! fst p))
        \<and> set (split w k) \<subseteq> set (collection (ns ! snd p))"
  shows "imSound w ns (map_set im k ps)"
  unfolding imSound_def
proof
  fix kv assume "kv \<in> set (map_set im k ps)"
  from map_set_in [OF this] have "kv \<in> set im \<or> kv = (k, ps)" .
  then show "snd kv \<noteq> [] \<and>
     (\<forall>p \<in> set (snd kv). fst p < length ns \<and> snd p < length ns
        \<and> set (split w (fst kv)) \<subseteq> set (collection (ns ! fst p))
        \<and> set (split w (fst kv)) \<subseteq> set (collection (ns ! snd p)))"
  proof
    assume "kv \<in> set im"
    with assms(1) show ?thesis unfolding imSound_def by blast
  next
    assume "kv = (k, ps)"
    with assms(2,3) show ?thesis by simp
  qed
qed

lemma pushPair_sound:
  assumes i: "imSound w ns im" and a: "a < length ns" and b: "b < length ns"
    and ka: "set (split w k) \<subseteq> set (collection (ns ! a))"
    and kb: "set (split w k) \<subseteq> set (collection (ns ! b))"
  shows "imSound w ns (pushPair im k (a, b))"
proof (cases "map_get im k")
  case None
  with imSound_set [OF i, of "[(a, b)]" k] a b ka kb show ?thesis
    by (simp add: pushPair_def)
next
  case (Some entry)
  from map_get_in [OF Some] i
  have "\<forall>p \<in> set entry. fst p < length ns \<and> snd p < length ns
        \<and> set (split w k) \<subseteq> set (collection (ns ! fst p))
        \<and> set (split w k) \<subseteq> set (collection (ns ! snd p))"
    unfolding imSound_def by fastforce
  with imSound_set [OF i, of "entry @ [(a, b)]" k] a b ka kb Some show ?thesis
    by (simp add: pushPair_def)
qed

lemma createIntersectionMap_sound:
  assumes inv: "inverseOn U w" and wi: "elementsWithin U ns"
    and r: "\<forall>k < length ns. set (rest (ns ! k)) \<subseteq> set (collection (ns ! k))"
  shows "imSound w ns (createIntersectionMap w ns)"
  unfolding createIntersectionMap_def
proof (rule fold_invariant [where I = "imSound w ns"])
  show "imSound w ns []" by (simp add: imSound_def)
next
  fix i im assume i: "i \<in> set [0 ..< length ns]" and im: "imSound w ns im"
  show "imSound w ns (fold (\<lambda>j im.
             (let intersectedSet = intersectSets (rest (ns ! i)) (rest (ns ! j))
              in if length intersectedSet > 0 then pushPair im (join w intersectedSet) (i, j) else im))
           [i + 1 ..< length ns] im)"
  proof (rule fold_invariant [where I = "imSound w ns"])
    show "imSound w ns im" by (rule im)
  next
    fix j t assume j: "j \<in> set [i + 1 ..< length ns]" and t: "imSound w ns t"
    define X where "X = intersectSets (rest (ns ! i)) (rest (ns ! j))"
    show "imSound w ns (let intersectedSet = intersectSets (rest (ns ! i)) (rest (ns ! j))
              in if length intersectedSet > 0 then pushPair t (join w intersectedSet) (i, j) else t)"
    proof (cases "length X > 0")
      case False
      with t show ?thesis by (simp add: X_def Let_def)
    next
      case True
      then have "X \<noteq> []" by simp
      moreover have "distinct X" by (simp add: X_def)
      moreover from i j have il: "i < length ns" and jl: "j < length ns" by simp_all
      with r have ri: "set (rest (ns ! i)) \<subseteq> set (collection (ns ! i))"
        and rj: "set (rest (ns ! j)) \<subseteq> set (collection (ns ! j))" by simp_all
      from wi il have "set (collection (ns ! i)) \<subseteq> U" by (simp add: elementsWithin_def)
      with ri have "set X \<subseteq> U" by (auto simp: X_def)
      ultimately have "set (split w (join w X)) = set X"
        using inv by (simp add: inverseOn_def)
      then have k: "set (split w (join w X)) = set (rest (ns ! i)) \<inter> set (rest (ns ! j))"
        by (simp add: X_def)
      note ri rj
      with k have "set (split w (join w X)) \<subseteq> set (collection (ns ! i))"
        "set (split w (join w X)) \<subseteq> set (collection (ns ! j))" by auto
      from pushPair_sound [OF t il jl this] True show ?thesis
        by (simp add: X_def Let_def)
    qed
  qed
qed

lemma imSound_pairsValid: "imSound w ns im \<Longrightarrow> pairsValid ns im"
  unfolding imSound_def pairsValid_def by blast

lemma setsMap_fold:
  assumes ps: "\<forall>p \<in> set ps. fst p < n \<and> snd p < n \<and> P (fst p) \<and> P (snd p)"
  shows "\<forall>s \<in> fst ` set (fold (\<lambda>(set1, set2) setsMap.
           addToIntersectingMapSets (addToIntersectingMapSets setsMap set1) set2) ps []). s < n \<and> P s"
proof (rule fold_invariant [where I = "\<lambda>sm :: (nat \<times> nat) list. \<forall>s \<in> fst ` set sm. s < n \<and> P s"])
  show "\<forall>s \<in> fst ` set ([] :: (nat \<times> nat) list). s < n \<and> P s" by simp
next
  fix p and sm :: "(nat \<times> nat) list"
  assume p: "p \<in> set ps" and sm: "\<forall>s \<in> fst ` set sm. s < n \<and> P s"
  obtain a b where ab: "p = (a, b)" by (cases p)
  show "\<forall>s \<in> fst ` set ((case p of (set1, set2) \<Rightarrow> \<lambda>setsMap.
           addToIntersectingMapSets (addToIntersectingMapSets setsMap set1) set2) sm). s < n \<and> P s"
  proof
    fix s assume "s \<in> fst ` set ((case p of (set1, set2) \<Rightarrow> \<lambda>setsMap.
           addToIntersectingMapSets (addToIntersectingMapSets setsMap set1) set2) sm)"
    then have "s \<in> fst ` set (addToIntersectingMapSets (addToIntersectingMapSets sm a) b)"
      by (simp add: ab)
    from addToIntersectingMapSets_keys [OF this] addToIntersectingMapSets_keys [of s sm a]
    have "s = a \<or> s = b \<or> s \<in> fst ` set sm" by blast
    with sm ps p ab show "s < n \<and> P s" by auto
  qed
qed

lemma setsMap_fold_nonempty:
  assumes "ps \<noteq> []"
  shows "fold (\<lambda>(set1, set2) setsMap.
           addToIntersectingMapSets (addToIntersectingMapSets setsMap set1) set2) ps [] \<noteq> []"
proof -
  from assms obtain p qs where ps: "ps = p # qs" by (cases ps) auto
  obtain a b where ab: "p = (a, b)" by (cases p)
  have "fold (\<lambda>(set1, set2) setsMap.
           addToIntersectingMapSets (addToIntersectingMapSets setsMap set1) set2) qs
          (addToIntersectingMapSets (addToIntersectingMapSets [] a) b) \<noteq> []"
  proof (rule fold_invariant [where I = "\<lambda>sm :: (nat \<times> nat) list. sm \<noteq> []"])
    show "addToIntersectingMapSets (addToIntersectingMapSets [] a) b \<noteq> []"
      by (rule addToIntersectingMapSets_nonempty)
  next
    fix q :: "nat \<times> nat" and sm :: "(nat \<times> nat) list"
    show "(case q of (set1, set2) \<Rightarrow> \<lambda>setsMap.
           addToIntersectingMapSets (addToIntersectingMapSets setsMap set1) set2) sm \<noteq> []"
      by (cases q) (simp add: addToIntersectingMapSets_nonempty)
  qed
  then show ?thesis by (simp add: ps ab)
qed

lemma createIntersectionMapSet_sound:
  assumes i: "imSound w ns im"
  shows "setsSound w ns (createIntersectionMapSet im)"
  unfolding createIntersectionMapSet_def
proof (rule fold_invariant [where I = "setsSound w ns"])
  show "setsSound w ns []" by (simp add: setsSound_def)
next
  fix kv ims assume kv: "kv \<in> set im" and s: "setsSound w ns ims"
  obtain key ps where k: "kv = (key, ps)" by (cases kv)
  from i kv k have ne: "ps \<noteq> []"
    and v: "\<forall>p \<in> set ps. fst p < length ns \<and> snd p < length ns
        \<and> set (split w key) \<subseteq> set (collection (ns ! fst p))
        \<and> set (split w key) \<subseteq> set (collection (ns ! snd p))"
    unfolding imSound_def by fastforce+
  from setsMap_fold [of ps "length ns" "\<lambda>s. set (split w key) \<subseteq> set (collection (ns ! s))"] v
  have "\<forall>s \<in> fst ` set (fold (\<lambda>(set1, set2) setsMap.
           addToIntersectingMapSets (addToIntersectingMapSets setsMap set1) set2) ps []).
          s < length ns \<and> set (split w key) \<subseteq> set (collection (ns ! s))" by simp
  from setsSound_set [OF s setsMap_fold_nonempty [OF ne] this]
  show "setsSound w ns ((case kv of (key, sets) \<Rightarrow> \<lambda>ims.
             map_set ims key
               (fold (\<lambda>(set1, set2) setsMap.
                        addToIntersectingMapSets (addToIntersectingMapSets setsMap set1) set2) sets [])) ims)"
    by (simp add: k)
qed

lemma createSetObjMap_splitResult:
  "splitResult (length sets) (createSetObjMap sets)"
  unfolding splitResult_def forwardImports_def locallyComplete_def
  by (simp add: createSetObjMap_def)

lemma initialState_inv:
  assumes inv: "inverseOn (\<Union> (set ` set sets)) w"
  shows "weightedInv w sets (initialState w sets)"
proof -
  define ns where "ns = createSetObjMap sets"
  have r: "\<forall>k < length ns. set (rest (ns ! k)) \<subseteq> set (collection (ns ! k))"
    by (simp add: ns_def createSetObjMap_def)
  have wi: "elementsWithin (\<Union> (set ` set sets)) ns"
    unfolding elementsWithin_def
  proof (intro allI impI)
    fix k assume "k < length ns"
    then have "k < length sets" "collection (ns ! k) = sets ! k"
      by (simp_all add: ns_def createSetObjMap_def)
    then have "set (collection (ns ! k)) \<in> set ` set sets"
      by (simp add: image_iff) (metis nth_mem)
    then show "set (collection (ns ! k)) \<subseteq> \<Union> (set ` set sets)" by blast
  qed
  from createIntersectionMap_sound [OF inv wi r] have im: "imSound w ns (createIntersectionMap w ns)" .
  from imSound_pairsValid [OF im] createIntersectionMapSet_sound [OF im]
    createSetObjMap_splitResult [of sets] wi
  show ?thesis
    by (simp add: weightedInv_def initialState_def Let_def ns_def createSetObjMap_def)
qed

lemma splitSetsWhile_inv:
  assumes r: "splitSetsWhile w st = Some (Some st')" and inv: "inverseOn (\<Union> (set ` set sets)) w"
    and I: "weightedInv w sets st"
  shows "weightedInv w sets st'"
proof -
  have "w = w \<longrightarrow> weightedInv w sets st \<longrightarrow> (\<forall>t. Some st' = Some t \<longrightarrow> weightedInv w sets t)"
  proof (rule splitSetsWhile.raw_induct [where P = "\<lambda>v s z. v = w \<longrightarrow> weightedInv w sets s \<longrightarrow>
        (\<forall>t. z = Some t \<longrightarrow> weightedInv w sets t)", OF _ r])
    fix rec v s z
    assume IH: "\<And>v' s' y. rec v' s' = Some y \<Longrightarrow> v' = w \<longrightarrow> weightedInv w sets s' \<longrightarrow>
        (\<forall>t. y = Some t \<longrightarrow> weightedInv w sets t)"
      and body: "(if length (intersectionMap s) > 0
          then (case splitSetsStep v s of None \<Rightarrow> Some None | Some st' \<Rightarrow> rec v st')
          else Some (Some s)) = Some z"
    show "v = w \<longrightarrow> weightedInv w sets s \<longrightarrow> (\<forall>t. z = Some t \<longrightarrow> weightedInv w sets t)"
    proof (intro impI allI)
      fix t assume e: "v = w" and i: "weightedInv w sets s" and z: "z = Some t"
      show "weightedInv w sets t"
      proof (cases "length (intersectionMap s) > 0")
        case False
        with body z have "t = s" by simp
        with i show ?thesis by simp
      next
        case True
        show ?thesis
        proof (cases "splitSetsStep w s")
          case None
          with body True e z show ?thesis by simp
        next
          case (Some s1)
          with body True e have "rec w s1 = Some z" by simp
          with IH [of w s1 z] splitSetsStep_inv [OF Some inv i] z show ?thesis by simp
        qed
      qed
    qed
  qed
  with I show ?thesis by simp
qed

lemma weightedSplitSets_structure:
  assumes r: "weightedSplitSets w sets = Some (Inr nodes)"
    and inv: "inverseOn (\<Union> (set ` set sets)) w"
  shows "splitResult (length sets) nodes \<and> (\<forall>k < length sets. collection (nodes ! k) = sets ! k)"
proof -
  from r obtain st where s: "splitSetsWhile w (initialState w sets) = Some (Some st)"
    and n: "nodes = setNodes st"
    by (auto simp: weightedSplitSets_def split: option.splits)
  from splitSetsWhile_inv [OF s inv initialState_inv [OF inv]] n show ?thesis
    by (simp add: weightedInv_def)
qed

lemma mapSetsToArrayNodes_sameSets:
  assumes "length arrays \<le> length ns"
    "\<forall>k < length arrays. set (collection (ns ! k)) = set (arrays ! k)"
  shows "sameSets ns (mapSetsToArrayNodes arrays ns)"
  using assms
  by (auto simp: sameSets_def mapSetsToArrayNodes_def nth_enumerate_eq)

lemma weightedSplitArrays_structure:
  assumes r: "weightedSplitArrays w arrays = Some (Inr nodes)"
    and inv: "inverseOn (\<Union> (set ` set arrays)) w"
  shows "splitResult (length arrays) nodes \<and> (\<forall>k < length arrays. collection (nodes ! k) = arrays ! k)"
proof -
  from r obtain x where x: "weightedSplitSets w (map js_new_set arrays) = Some x"
    and m: "map_sum id (mapSetsToArrayNodes arrays) x = Inr nodes"
    by (auto simp: weightedSplitArrays_def)
  from m obtain ns where "x = Inr ns" and n: "nodes = mapSetsToArrayNodes arrays ns"
    by (cases x) auto
  with x have a: "weightedSplitSets w (map js_new_set arrays) = Some (Inr ns)" by simp
  have "\<Union> (set ` set (map js_new_set arrays)) = \<Union> (set ` set arrays)" by auto
  with inv have "inverseOn (\<Union> (set ` set (map js_new_set arrays))) w" by simp
  from weightedSplitSets_structure [OF a this]
  have sr: "splitResult (length arrays) ns"
    and col: "\<forall>k < length arrays. collection (ns ! k) = js_new_set (arrays ! k)" by simp_all
  from sr have len: "length arrays \<le> length ns" by (simp add: splitResult_def)
  from col have "\<forall>k < length arrays. set (collection (ns ! k)) = set (arrays ! k)"
    by simp
  from mapSetsToArrayNodes_sameSets [OF len this] have "sameSets ns nodes" by (simp add: n)
  from splitResult_sameSets [OF sr this] have "splitResult (length arrays) nodes" .
  moreover have "\<forall>k < length arrays. collection (nodes ! k) = arrays ! k"
    using len by (simp add: n mapSetsToArrayNodes_def nth_enumerate_eq)
  ultimately show ?thesis by simp
qed

section \<open>The documented join and split\<close>

text \<open>
  On strings without the character \<^verbatim>\<open>'\x00'\<close>, \<^verbatim>\<open>string.split('\x00')\<close> undoes
  \<^verbatim>\<open>array.sort().join('\x00')\<close> up to the order of the array; and the four entry points of
  the greedy and the weighted splitter return on the arrays \<open>['1','2','3']\<close>,
  \<open>['2','3','4']\<close>, \<open>['3','4','5']\<close>.
\<close>

lemma js_split_plain: "sep \<notin> set x \<Longrightarrow> js_split sep x = [x]"
  by (induction x) auto

lemma js_split_piece: "sep \<notin> set x \<Longrightarrow> js_split sep (x @ sep # r) = x # js_split sep r"
  by (induction x) auto

lemma js_split_join:
  "xs \<noteq> [] \<Longrightarrow> \<forall>x \<in> set xs. sep \<notin> set x \<Longrightarrow> js_split sep (js_join [sep] xs) = xs"
proof (induction "[sep]" xs rule: js_join.induct)
  case 1
  then show ?case by simp
next
  case (2 x)
  then show ?case by (simp add: js_split_plain)
next
  case (3 x y ys)
  then show ?case by (simp add: js_split_piece)
qed

lemma documented_pair_inverse:
  assumes "\<forall>x \<in> U. CHR 0x00 \<notin> set x"
  shows "inverseOn U (WeightedIntersectionsSplitter arrayJoiner primitiveSplitter)"
  unfolding inverseOn_def
proof (intro allI impI)
  fix xs :: "string list"
  assume a: "xs \<noteq> [] \<and> distinct xs \<and> set xs \<subseteq> U"
  then have "sort xs \<noteq> []" by (metis length_sort length_0_conv)
  moreover from a assms have "\<forall>x \<in> set (sort xs). CHR 0x00 \<notin> set x" by auto
  ultimately have "js_split (CHR 0x00) (js_join [CHR 0x00] (sort xs)) = sort xs"
    by (rule js_split_join)
  then show "set (split (WeightedIntersectionsSplitter arrayJoiner primitiveSplitter)
        (join (WeightedIntersectionsSplitter arrayJoiner primitiveSplitter) xs)) = set xs"
    by (simp add: WeightedIntersectionsSplitter_def arrayJoiner_def primitiveSplitter_def)
qed

lemma example_runs:
  "splitArrays SortFalse [[''1'', ''2'', ''3''], [''2'', ''3'', ''4''], [''3'', ''4'', ''5'']] \<noteq> None"
  "splitSets SortFalse [[''1'', ''2'', ''3''], [''2'', ''3'', ''4''], [''3'', ''4'', ''5'']] \<noteq> None"
  "(case weightedSplitSets (WeightedIntersectionsSplitter arrayJoiner primitiveSplitter)
      [[''1'', ''2'', ''3''], [''2'', ''3'', ''4''], [''3'', ''4'', ''5'']] of
      Some (Inr nodes) \<Rightarrow> True | _ \<Rightarrow> False)"
  "(case weightedSplitArrays (WeightedIntersectionsSplitter arrayJoiner primitiveSplitter)
      [[''1'', ''2'', ''3''], [''2'', ''3'', ''4''], [''3'', ''4'', ''5'']] of
      Some (Inr nodes) \<Rightarrow> True | _ \<Rightarrow> False)"
  by code_simp+

lemma example_elements:
  "\<forall>x \<in> \<Union> (set ` set [[''1'', ''2'', ''3''], [''2'', ''3'', ''4''], [''3'', ''4'', ''5'']]).
     CHR 0x00 \<notin> set x"
  by simp

lemma returned_nodes:
  "(case r of Some (Inr nodes) \<Rightarrow> True | _ \<Rightarrow> False) \<Longrightarrow> \<exists>nodes. r = Some (Inr nodes)"
  by (auto split: option.splits sum.splits)

section \<open>Reconstruction of the input collections\<close>




section \<open>Acyclicity and depths\<close>

text \<open>
  C5. In the node array that an entry point returns, the import relation is acyclic,
  every node that no node imports has depth 0, and along every import the depth grows
  by at least one. This holds of \<^verbatim>\<open>splitIntersectionsShallow\<close>; of \<^verbatim>\<open>splitArrays\<close> and
  \<^verbatim>\<open>splitSets\<close> of the greedy splitter for \<^verbatim>\<open>sort\<close> being \<^verbatim>\<open>true\<close>, \<^verbatim>\<open>false\<close> or a sorter
  function that is a consistent comparator for the elements of each input; and of
  \<^verbatim>\<open>splitSets\<close> and \<^verbatim>\<open>splitArrays\<close> of the weighted splitter when \<^verbatim>\<open>split\<close> undoes \<^verbatim>\<open>join\<close>,
  as a set, on the non-empty arrays of distinct elements of the inputs.
\<close>

theorem splitters_wellFormedDag:
  fixes srt :: "'a::linorder sort_arg" and w :: "('b, 'u) weighted" and c :: "'c collections"
  shows "wellFormedDag (splitIntersectionsShallow c)
     \<and> (splitArrays srt arrays = Some nodesA \<and> (\<forall>array \<in> set arrays. consistentSort srt array) \<longrightarrow>
          wellFormedDag nodesA)
     \<and> (splitSets srt sets = Some nodesS \<and> (\<forall>s \<in> set sets. consistentSort srt s) \<longrightarrow>
          wellFormedDag nodesS)
     \<and> (inverseOn (\<Union> (set ` set wsets)) w \<and> weightedSplitSets w wsets = Some (Inr nodesWS) \<longrightarrow>
          wellFormedDag nodesWS)
     \<and> (inverseOn (\<Union> (set ` set warrays)) w \<and> weightedSplitArrays w warrays = Some (Inr nodesWA) \<longrightarrow>
          wellFormedDag nodesWA)"
proof (intro conjI impI)
  note s = shallow_splitResult [of "collectionsOf c"]
  show "wellFormedDag (splitIntersectionsShallow c)"
    unfolding shallow_as_arrays by (rule splitResult_wellFormedDag [OF conjunct1 [OF s]])
next
  assume "splitArrays srt arrays = Some nodesA \<and> (\<forall>array \<in> set arrays. consistentSort srt array)"
  then have r: "splitArrays srt arrays = Some nodesA" by (rule conjunct1)
  from splitArrays_splitResult [OF r] show "wellFormedDag nodesA"
    by (rule splitResult_wellFormedDag)
next
  assume "splitSets srt sets = Some nodesS \<and> (\<forall>s \<in> set sets. consistentSort srt s)"
  then have r: "splitSets srt sets = Some nodesS" by (rule conjunct1)
  from splitSets_structure [OF r] show "wellFormedDag nodesS"
    by (intro splitResult_wellFormedDag [of "length sets"]) (rule conjunct1)
next
  assume a: "inverseOn (\<Union> (set ` set wsets)) w \<and> weightedSplitSets w wsets = Some (Inr nodesWS)"
  note t = weightedSplitSets_structure [OF conjunct2 [OF a] conjunct1 [OF a]]
  show "wellFormedDag nodesWS"
    by (rule splitResult_wellFormedDag [OF conjunct1 [OF t]])
next
  assume a: "inverseOn (\<Union> (set ` set warrays)) w \<and> weightedSplitArrays w warrays = Some (Inr nodesWA)"
  note t = weightedSplitArrays_structure [OF conjunct2 [OF a] conjunct1 [OF a]]
  show "wellFormedDag nodesWA"
    by (rule splitResult_wellFormedDag [OF conjunct1 [OF t]])
qed

theorem splitters_wellFormedDag_witness:
  "wellFormedDag (splitIntersectionsShallow
       (Arrays [[''1'', ''2'', ''3''], [''2'', ''3'', ''4''], [''3'', ''4'', ''5'']]))
   \<and> (\<exists>nodes. splitArrays SortFalse [[''1'', ''2'', ''3''], [''2'', ''3'', ''4''], [''3'', ''4'', ''5'']]
          = Some nodes \<and> wellFormedDag nodes)
   \<and> (\<exists>nodes. splitSets SortFalse [[''1'', ''2'', ''3''], [''2'', ''3'', ''4''], [''3'', ''4'', ''5'']]
          = Some nodes \<and> wellFormedDag nodes)
   \<and> (\<exists>nodes. weightedSplitSets (WeightedIntersectionsSplitter arrayJoiner primitiveSplitter)
          [[''1'', ''2'', ''3''], [''2'', ''3'', ''4''], [''3'', ''4'', ''5'']] = Some (Inr nodes)
        \<and> wellFormedDag nodes)
   \<and> (\<exists>nodes. weightedSplitArrays (WeightedIntersectionsSplitter arrayJoiner primitiveSplitter)
          [[''1'', ''2'', ''3''], [''2'', ''3'', ''4''], [''3'', ''4'', ''5'']] = Some (Inr nodes)
        \<and> wellFormedDag nodes)"
proof -
  define ex where "ex = [[''1'', ''2'', ''3''], [''2'', ''3'', ''4''], [''3'', ''4'', ''5'']]"
  define w where "w = WeightedIntersectionsSplitter arrayJoiner primitiveSplitter"
  from example_runs(1) obtain nodesA where a: "splitArrays SortFalse ex = Some nodesA"
    unfolding ex_def by blast
  from example_runs(2) obtain nodesS where s: "splitSets SortFalse ex = Some nodesS"
    unfolding ex_def by blast
  from returned_nodes [OF example_runs(3)] obtain nodesWS where
    ws: "weightedSplitSets w ex = Some (Inr nodesWS)" unfolding ex_def w_def by blast
  from returned_nodes [OF example_runs(4)] obtain nodesWA where
    wa: "weightedSplitArrays w ex = Some (Inr nodesWA)" unfolding ex_def w_def by blast
  have inv: "inverseOn (\<Union> (set ` set ex)) w"
    unfolding w_def ex_def by (rule documented_pair_inverse [OF example_elements])
  from splitters_wellFormedDag [of "Arrays ex" SortFalse ex nodesA ex nodesS ex w nodesWS ex nodesWA]
    a s ws wa inv
  have "wellFormedDag (splitIntersectionsShallow (Arrays ex))
     \<and> wellFormedDag nodesA \<and> wellFormedDag nodesS \<and> wellFormedDag nodesWS
     \<and> wellFormedDag nodesWA" by simp
  with a s ws wa show ?thesis unfolding ex_def w_def by blast
qed

end
